theory Spec2Isabelle
  imports
    Complex_Main
    "HOL-Library.Char_ord"
    "HOL-Library.List_Lexorder"
    "HOL-Library.Product_Lexorder"
begin

section \<open>The order book of \<^verbatim>\<open>src/one.py\<close>\<close>

text \<open>
  The model follows \<^verbatim>\<open>class Order\<close> and \<^verbatim>\<open>class OrderBook\<close> method by method.

  \<^item> Prices and timestamps are Python numbers that the code only negates, subtracts and
    compares; they are rationals here. Quantities are Python integers.
  \<^item> An \<^verbatim>\<open>Order\<close> is a mutable object shared by the id-map \<^verbatim>\<open>orders\<close> and by the
    lists of \<^verbatim>\<open>price_levels_buy\<close> / \<^verbatim>\<open>price_levels_sell\<close>. The objects live in an explicit
    store (\<open>objects\<close>); a reference is the index of the object in the store, and
    \<^verbatim>\<open>Order(...)\<close> allocates the next index. The id-map and the price levels hold
    references, so a write through one is seen through the other, as in Python.
  \<^item> \<^verbatim>\<open>time.time()\<close> is the environment's clock: \<open>add_order\<close> takes the reading as an
    argument.
  \<^item> The two heaps are used only through \<^verbatim>\<open>heappush\<close>, \<^verbatim>\<open>heappop\<close>, \<^verbatim>\<open>heap[0]\<close>, a copy
    and a test for emptiness. What these return depends only on the multiset of the
    entries, so a heap is kept as the ascending list of its entries: \<^verbatim>\<open>heap[0]\<close> is the
    head, \<^verbatim>\<open>heappop\<close> removes the head, \<^verbatim>\<open>heappush\<close> inserts in order. Entries are
    compared as Python compares tuples, lexicographically.
  \<^item> \<^verbatim>\<open>list.remove\<close> raises \<^verbatim>\<open>ValueError\<close> when the element is absent; every method that
    calls it returns a sum, with \<open>Inl\<close> for the exception.
  \<^item> \<^verbatim>\<open>defaultdict(list)\<close> inserts an empty list under a key that is read while
    missing; \<open>dd_get\<close> returns the list together with the dictionary after the read.
\<close>

subsection \<open>Data\<close>

datatype py_error = ValueError

type_synonym ref = nat

type_synonym entry = "rat \<times> rat \<times> string"

type_synonym ledger = "rat \<rightharpoonup> ref list"

record order =
  order_id :: string
  side :: string
  price :: rat
  quantity :: int
  timestamp :: rat

record book =
  objects :: "order list"
  buy_orders :: "entry list"
  sell_orders :: "entry list"
  orders :: "string \<rightharpoonup> ref"
  price_levels_buy :: ledger
  price_levels_sell :: ledger

record trade =
  buy_order_id :: string
  sell_order_id :: string
  trade_price :: rat
  trade_quantity :: int

text \<open>\<^verbatim>\<open>OrderBook.__init__\<close>\<close>

definition init :: book where
  "init = \<lparr>objects = [], buy_orders = [], sell_orders = [], orders = Map.empty,
            price_levels_buy = Map.empty, price_levels_sell = Map.empty\<rparr>"

subsection \<open>Library operations\<close>

definition heappush :: "entry list \<Rightarrow> entry \<Rightarrow> entry list" where
  "heappush h e = insort e h"

definition dd_get :: "ledger \<Rightarrow> rat \<Rightarrow> ref list \<times> ledger" where
  "dd_get d k = (case d k of None \<Rightarrow> ([], d(k \<mapsto> [])) | Some xs \<Rightarrow> (xs, d))"

definition list_remove :: "ref list \<Rightarrow> ref \<Rightarrow> py_error + ref list" where
  "list_remove xs x = (if x \<in> set xs then Inr (remove1 x xs) else Inl ValueError)"

text \<open>
  \<^verbatim>\<open>levels[p].append(order)\<close>: the read creates the list when the key is missing.
\<close>

definition level_append :: "ledger \<Rightarrow> rat \<Rightarrow> ref \<Rightarrow> ledger" where
  "level_append d p a = (case dd_get d p of (xs, d1) \<Rightarrow> d1(p \<mapsto> xs @ [a]))"

text \<open>
  \<^verbatim>\<open>levels[p].remove(order); if not levels[p]: del levels[p]\<close>, the four lines that
  \<^verbatim>\<open>cancel_order\<close> and \<^verbatim>\<open>modify_order\<close> repeat for each side.
\<close>

definition level_remove :: "ledger \<Rightarrow> rat \<Rightarrow> ref \<Rightarrow> py_error + ledger" where
  "level_remove d p a =
     (case dd_get d p of (xs, d1) \<Rightarrow>
        (case list_remove xs a of
           Inl e \<Rightarrow> Inl e
         | Inr ys \<Rightarrow> Inr (if ys = [] then d1(p := None) else d1(p \<mapsto> ys))))"

subsection \<open>add, cancel, modify\<close>

definition add_order :: "book \<Rightarrow> rat \<Rightarrow> string \<Rightarrow> string \<Rightarrow> rat \<Rightarrow> int \<Rightarrow> bool \<times> book" where
  "add_order b now oid sd p q =
     (if orders b oid \<noteq> None then (False, b)
      else
        let a = length (objects b);
            b1 = b\<lparr>objects := objects b @
                      [\<lparr>order_id = oid, side = sd, price = p, quantity = q, timestamp = now\<rparr>],
                   orders := (orders b)(oid \<mapsto> a)\<rparr>
        in if sd = ''buy''
           then (True, b1\<lparr>buy_orders := heappush (buy_orders b1) (- p, now, oid),
                          price_levels_buy := level_append (price_levels_buy b1) p a\<rparr>)
           else (True, b1\<lparr>sell_orders := heappush (sell_orders b1) (p, now, oid),
                          price_levels_sell := level_append (price_levels_sell b1) p a\<rparr>))"

definition cancel_order :: "book \<Rightarrow> string \<Rightarrow> py_error + bool \<times> book" where
  "cancel_order b oid =
     (case orders b oid of
        None \<Rightarrow> Inr (False, b)
      | Some a \<Rightarrow>
          if side (objects b ! a) = ''buy''
          then (case level_remove (price_levels_buy b) (price (objects b ! a)) a of
                  Inl e \<Rightarrow> Inl e
                | Inr d \<Rightarrow> Inr (True, b\<lparr>price_levels_buy := d, orders := (orders b)(oid := None)\<rparr>))
          else (case level_remove (price_levels_sell b) (price (objects b ! a)) a of
                  Inl e \<Rightarrow> Inl e
                | Inr d \<Rightarrow> Inr (True, b\<lparr>price_levels_sell := d, orders := (orders b)(oid := None)\<rparr>)))"

text \<open>The \<^verbatim>\<open>if new_price is not None\<close> block of \<^verbatim>\<open>modify_order\<close>.\<close>

definition reprice :: "book \<Rightarrow> string \<Rightarrow> ref \<Rightarrow> rat \<Rightarrow> py_error + book" where
  "reprice b oid a new_price =
     (let old_price = price (objects b ! a) in
      if side (objects b ! a) = ''buy''
      then (case level_remove (price_levels_buy b) old_price a of
              Inl e \<Rightarrow> Inl e
            | Inr d \<Rightarrow>
                Inr (b\<lparr>objects := (objects b)[a := (objects b ! a)\<lparr>price := new_price\<rparr>],
                       price_levels_buy := level_append d new_price a,
                       buy_orders := heappush (buy_orders b)
                                       (- new_price, timestamp (objects b ! a), oid)\<rparr>))
      else (case level_remove (price_levels_sell b) old_price a of
              Inl e \<Rightarrow> Inl e
            | Inr d \<Rightarrow>
                Inr (b\<lparr>objects := (objects b)[a := (objects b ! a)\<lparr>price := new_price\<rparr>],
                       price_levels_sell := level_append d new_price a,
                       sell_orders := heappush (sell_orders b)
                                        (new_price, timestamp (objects b ! a), oid)\<rparr>)))"

text \<open>The \<^verbatim>\<open>if new_quantity is not None\<close> block.\<close>

definition set_quantity :: "book \<Rightarrow> ref \<Rightarrow> int \<Rightarrow> book" where
  "set_quantity b a q = b\<lparr>objects := (objects b)[a := (objects b ! a)\<lparr>quantity := q\<rparr>]\<rparr>"

definition modify_order ::
  "book \<Rightarrow> string \<Rightarrow> rat option \<Rightarrow> int option \<Rightarrow> py_error + bool \<times> book" where
  "modify_order b oid new_price new_quantity =
     (case orders b oid of
        None \<Rightarrow> Inr (False, b)
      | Some a \<Rightarrow>
          (case (case new_price of None \<Rightarrow> Inr b | Some np \<Rightarrow> reprice b oid a np) of
             Inl e \<Rightarrow> Inl e
           | Inr b1 \<Rightarrow>
               Inr (True, case new_quantity of None \<Rightarrow> b1 | Some nq \<Rightarrow> set_quantity b1 a nq)))"

subsection \<open>Best prices and spread\<close>

text \<open>
  The loop shared by \<^verbatim>\<open>get_best_bid\<close> and \<^verbatim>\<open>get_best_ask\<close>: pop while the top entry's id
  is not in the id-map; the result is the key of the first entry whose id is, and the
  heap that is left.
\<close>

fun best_loop :: "(string \<rightharpoonup> ref) \<Rightarrow> entry list \<Rightarrow> rat option \<times> entry list" where
  "best_loop os [] = (None, [])"
| "best_loop os ((k, t, i) # h) =
     (if os i \<noteq> None then (Some k, (k, t, i) # h) else best_loop os h)"

definition get_best_bid :: "book \<Rightarrow> rat option \<times> book" where
  "get_best_bid b =
     (case best_loop (orders b) (buy_orders b) of
        (None, h) \<Rightarrow> (None, b\<lparr>buy_orders := h\<rparr>)
      | (Some neg_price, h) \<Rightarrow> (Some (- neg_price), b\<lparr>buy_orders := h\<rparr>))"

definition get_best_ask :: "book \<Rightarrow> rat option \<times> book" where
  "get_best_ask b =
     (case best_loop (orders b) (sell_orders b) of
        (r, h) \<Rightarrow> (r, b\<lparr>sell_orders := h\<rparr>))"

definition get_spread :: "book \<Rightarrow> rat option \<times> book" where
  "get_spread b =
     (case get_best_bid b of (best_bid, b1) \<Rightarrow>
        (case get_best_ask b1 of (best_ask, b2) \<Rightarrow>
           (case (best_bid, best_ask) of
              (Some bb, Some ba) \<Rightarrow> (Some (ba - bb), b2)
            | _ \<Rightarrow> (None, b2))))"

subsection \<open>Snapshot\<close>

text \<open>
  One of the two loops of \<^verbatim>\<open>get_order_book_snapshot\<close>, over the popped copy of a heap.
  \<open>f\<close> turns the key of an entry into its price: negation for the bids, the identity
  for the asks. The ledger is threaded through because the read
  \<^verbatim>\<open>self.price_levels_buy[price]\<close> goes through the \<^verbatim>\<open>defaultdict\<close>.
\<close>

definition level_total :: "order list \<Rightarrow> ref list \<Rightarrow> int" where
  "level_total objs xs = sum_list (map (\<lambda>a. quantity (objs ! a)) xs)"

fun snapshot_loop ::
  "(rat \<Rightarrow> rat) \<Rightarrow> int \<Rightarrow> (string \<rightharpoonup> ref) \<Rightarrow> order list \<Rightarrow> entry list \<Rightarrow> rat set \<Rightarrow>
   (rat \<times> int) list \<Rightarrow> ledger \<Rightarrow> (rat \<times> int) list \<times> ledger" where
  "snapshot_loop f depth os objs [] seen acc lv = (acc, lv)"
| "snapshot_loop f depth os objs ((k, t, i) # temp) seen acc lv =
     (if int (length acc) < depth
      then (if f k \<notin> seen \<and> os i \<noteq> None
            then (case dd_get lv (f k) of (xs, lv1) \<Rightarrow>
                    snapshot_loop f depth os objs temp (insert (f k) seen)
                      (acc @ [(f k, level_total objs xs)]) lv1)
            else snapshot_loop f depth os objs temp seen acc lv)
      else (acc, lv))"

definition get_order_book_snapshot ::
  "book \<Rightarrow> int \<Rightarrow> ((rat \<times> int) list \<times> (rat \<times> int) list) \<times> book" where
  "get_order_book_snapshot b depth =
     (case snapshot_loop uminus depth (orders b) (objects b) (buy_orders b) {} []
             (price_levels_buy b) of
        (bids, lb) \<Rightarrow>
          (case snapshot_loop (\<lambda>p. p) depth (orders b) (objects b) (sell_orders b) {} []
                  (price_levels_sell b) of
             (asks, ls) \<Rightarrow>
               ((bids, asks), b\<lparr>price_levels_buy := lb, price_levels_sell := ls\<rparr>)))"

subsection \<open>Matching\<close>

text \<open>
  \<^verbatim>\<open>order.quantity -= match_quantity\<close>, and
  \<^verbatim>\<open>if order.quantity == 0: self.cancel_order(order.order_id)\<close>.
\<close>

definition fill :: "book \<Rightarrow> ref \<Rightarrow> int \<Rightarrow> book" where
  "fill b a mq = set_quantity b a (quantity (objects b ! a) - mq)"

definition retire :: "book \<Rightarrow> ref \<Rightarrow> py_error + book" where
  "retire b a =
     (if quantity (objects b ! a) = 0
      then (case cancel_order b (order_id (objects b ! a)) of
              Inl e \<Rightarrow> Inl e
            | Inr (r, b') \<Rightarrow> Inr b')
      else Inr b)"

text \<open>
  Lines 160 to 177 of the loop body, for the two front orders: the trade, the two
  decrements and the two removals.
\<close>

definition settle :: "book \<Rightarrow> ref \<Rightarrow> ref \<Rightarrow> py_error + trade \<times> book" where
  "settle b buy_order sell_order =
     (let match_quantity = min (quantity (objects b ! buy_order))
                               (quantity (objects b ! sell_order));
          t = \<lparr>buy_order_id = order_id (objects b ! buy_order),
               sell_order_id = order_id (objects b ! sell_order),
               trade_price = price (objects b ! sell_order),
               trade_quantity = match_quantity\<rparr>;
          b4 = fill (fill b buy_order match_quantity) sell_order match_quantity
      in case retire b4 buy_order of
           Inl e \<Rightarrow> Inl e
         | Inr b5 \<Rightarrow>
             (case retire b5 sell_order of
                Inl e \<Rightarrow> Inl e
              | Inr b6 \<Rightarrow> Inr (t, b6)))"

text \<open>
  The body of the \<^verbatim>\<open>while True\<close> loop of \<^verbatim>\<open>match_orders\<close>: \<open>None\<close> for the trade is a
  \<^verbatim>\<open>break\<close>, \<open>Some t\<close> is the trade appended before the next round. The two reads of
  the price levels go through the \<^verbatim>\<open>defaultdict\<close>.
\<close>

definition match_round :: "book \<Rightarrow> py_error + trade option \<times> book" where
  "match_round b =
     (case get_best_bid b of (best_bid, b1) \<Rightarrow>
      (case get_best_ask b1 of (best_ask, b2) \<Rightarrow>
       (case (best_bid, best_ask) of
          (Some bb, Some ba) \<Rightarrow>
            if bb < ba then Inr (None, b2)
            else
              (case dd_get (price_levels_buy b2) bb of (buy_orders_at_price, lb) \<Rightarrow>
               (case dd_get (price_levels_sell b2) ba of (sell_orders_at_price, ls) \<Rightarrow>
                  (let b3 = b2\<lparr>price_levels_buy := lb, price_levels_sell := ls\<rparr> in
                   case (buy_orders_at_price, sell_orders_at_price) of
                     (buy_order # _, sell_order # _) \<Rightarrow>
                       (case settle b3 buy_order sell_order of
                          Inl e \<Rightarrow> Inl e
                        | Inr (t, b') \<Rightarrow> Inr (Some t, b'))
                   | _ \<Rightarrow> Inr (None, b3))))
        | _ \<Rightarrow> Inr (None, b2))))"

text \<open>
  The loop itself. On a book whose lists hold an order that the id-map does not, the
  Python loop need not stop; \<open>None\<close> is the run that never returns.
\<close>

partial_function (option) match_loop ::
  "book \<Rightarrow> trade list \<Rightarrow> (py_error + trade list \<times> book) option" where
  "match_loop b matches =
     (case match_round b of
        Inl e \<Rightarrow> Some (Inl e)
      | Inr (None, b') \<Rightarrow> Some (Inr (matches, b'))
      | Inr (Some t, b') \<Rightarrow> match_loop b' (matches @ [t]))"

declare match_loop.simps [code]

definition match_orders :: "book \<Rightarrow> (py_error + trade list \<times> book) option" where
  "match_orders b = match_loop b []"

subsection \<open>Sequences of calls\<close>

datatype op =
    Add rat string string rat int
  | Cancel string
  | Modify string "rat option" "int option"
  | Best_Bid
  | Best_Ask
  | Spread
  | Snapshot int
  | Match

datatype reply =
    Ack bool
  | Quote "rat option"
  | Levels "(rat \<times> int) list" "(rat \<times> int) list"
  | Trades "trade list"

fun step :: "book \<Rightarrow> op \<Rightarrow> (py_error + reply \<times> book) option" where
  "step b (Add now oid sd p q) =
     (case add_order b now oid sd p q of (r, b') \<Rightarrow> Some (Inr (Ack r, b')))"
| "step b (Cancel oid) =
     (case cancel_order b oid of Inl e \<Rightarrow> Some (Inl e) | Inr (r, b') \<Rightarrow> Some (Inr (Ack r, b')))"
| "step b (Modify oid np nq) =
     (case modify_order b oid np nq of
        Inl e \<Rightarrow> Some (Inl e)
      | Inr (r, b') \<Rightarrow> Some (Inr (Ack r, b')))"
| "step b Best_Bid = (case get_best_bid b of (r, b') \<Rightarrow> Some (Inr (Quote r, b')))"
| "step b Best_Ask = (case get_best_ask b of (r, b') \<Rightarrow> Some (Inr (Quote r, b')))"
| "step b Spread = (case get_spread b of (r, b') \<Rightarrow> Some (Inr (Quote r, b')))"
| "step b (Snapshot depth) =
     (case get_order_book_snapshot b depth of
        ((bids, asks), b') \<Rightarrow> Some (Inr (Levels bids asks, b')))"
| "step b Match =
     (case match_orders b of
        None \<Rightarrow> None
      | Some (Inl e) \<Rightarrow> Some (Inl e)
      | Some (Inr (ms, b')) \<Rightarrow> Some (Inr (Trades ms, b')))"

fun exec :: "book \<Rightarrow> op list \<Rightarrow> (py_error + reply list \<times> book) option" where
  "exec b [] = Some (Inr ([], b))"
| "exec b (x # xs) =
     (case step b x of
        None \<Rightarrow> None
      | Some (Inl e) \<Rightarrow> Some (Inl e)
      | Some (Inr (out, b')) \<Rightarrow>
          (case exec b' xs of
             None \<Rightarrow> None
           | Some (Inl e) \<Rightarrow> Some (Inl e)
           | Some (Inr (outs, b'')) \<Rightarrow> Some (Inr (out # outs, b''))))"

text \<open>
  The replies and the book at the end of a sequence of calls on the empty book. (Every
  such sequence returns, see \<open>exec_final\<close> below; the other branches are never taken.)
\<close>

definition replies :: "op list \<Rightarrow> reply list" where
  "replies xs = (case exec init xs of Some (Inr (outs, b)) \<Rightarrow> outs | _ \<Rightarrow> [])"

definition final :: "op list \<Rightarrow> book" where
  "final xs = (case exec init xs of Some (Inr (outs, b)) \<Rightarrow> b | _ \<Rightarrow> init)"

subsection \<open>Well-formed books\<close>

text \<open>
  Reading a level without the \<^verbatim>\<open>defaultdict\<close>'s insertion: the list under the key, the
  empty list when the key is missing.
\<close>

definition bucket :: "ledger \<Rightarrow> rat \<Rightarrow> ref list" where
  "bucket lv p = (case lv p of None \<Rightarrow> [] | Some xs \<Rightarrow> xs)"

text \<open>
  \<open>ids_ok\<close>: the id-map sends an id to an allocated object that carries this id.
\<close>

definition ids_ok :: "order list \<Rightarrow> (string \<rightharpoonup> ref) \<Rightarrow> bool" where
  "ids_ok objs os \<longleftrightarrow> (\<forall>i a. os i = Some a \<longrightarrow> a < length objs \<and> order_id (objs ! a) = i)"

text \<open>
  \<open>ref_ok bs objs os p a\<close>: the reference \<open>a\<close> is an object of the id-map, of the side
  \<open>bs\<close> (true for the buy side), whose price is \<open>p\<close>.
\<close>

definition ref_ok :: "bool \<Rightarrow> order list \<Rightarrow> (string \<rightharpoonup> ref) \<Rightarrow> rat \<Rightarrow> ref \<Rightarrow> bool" where
  "ref_ok bs objs os p a \<longleftrightarrow>
     a < length objs \<and> os (order_id (objs ! a)) = Some a \<and>
     (side (objs ! a) = ''buy'') = bs \<and> price (objs ! a) = p"

text \<open>
  \<open>ledger_ok bs\<close> for the ledger of one side: every list is free of repetitions, and
  each of its members is an object of the id-map, of this side, whose price is the key
  of the list.
\<close>

definition ledger_ok :: "bool \<Rightarrow> order list \<Rightarrow> (string \<rightharpoonup> ref) \<Rightarrow> ledger \<Rightarrow> bool" where
  "ledger_ok bs objs os lv \<longleftrightarrow>
     (\<forall>p. distinct (bucket lv p) \<and> (\<forall>a \<in> set (bucket lv p). ref_ok bs objs os p a))"

text \<open>
  \<open>ledger_covers bs\<close>: every object of the id-map of this side is in the list under
  its own price.
\<close>

definition ledger_covers :: "bool \<Rightarrow> order list \<Rightarrow> (string \<rightharpoonup> ref) \<Rightarrow> ledger \<Rightarrow> bool" where
  "ledger_covers bs objs os lv \<longleftrightarrow>
     (\<forall>i a. os i = Some a \<and> (side (objs ! a) = ''buy'') = bs \<longrightarrow>
        a \<in> set (bucket lv (price (objs ! a))))"

text \<open>
  \<open>index_covers\<close>: every order of the id-map has, in the heap of its side, the entry
  pushed for its current price.
\<close>

definition index_covers :: "book \<Rightarrow> bool" where
  "index_covers b \<longleftrightarrow>
     (\<forall>i a. orders b i = Some a \<longrightarrow>
        (if side (objects b ! a) = ''buy''
         then (- price (objects b ! a), timestamp (objects b ! a), i) \<in> set (buy_orders b)
         else (price (objects b ! a), timestamp (objects b ! a), i) \<in> set (sell_orders b)))"

definition wf :: "book \<Rightarrow> bool" where
  "wf b \<longleftrightarrow>
     finite (dom (orders b)) \<and>
     ids_ok (objects b) (orders b) \<and>
     ledger_ok True (objects b) (orders b) (price_levels_buy b) \<and>
     ledger_ok False (objects b) (orders b) (price_levels_sell b) \<and>
     ledger_covers True (objects b) (orders b) (price_levels_buy b) \<and>
     ledger_covers False (objects b) (orders b) (price_levels_sell b) \<and>
     sorted (buy_orders b) \<and> sorted (sell_orders b) \<and>
     index_covers b"

text \<open>
  The book after the two price queries of a round, and after the two reads of the price
  levels that follow them.
\<close>

definition quoted :: "book \<Rightarrow> book" where
  "quoted b = snd (get_best_ask (snd (get_best_bid b)))"

definition touched :: "book \<Rightarrow> rat \<Rightarrow> rat \<Rightarrow> book" where
  "touched b x y =
     b\<lparr>price_levels_buy := snd (dd_get (price_levels_buy b) x),
       price_levels_sell := snd (dd_get (price_levels_sell b) y)\<rparr>"

text \<open>
  \<open>settled b\<close>: the two queries find a bid below the ask, or a price under which the
  ledger of that side holds no order, or one of the two ledgers holds no order at all.
\<close>

definition settled :: "book \<Rightarrow> bool" where
  "settled b \<longleftrightarrow>
     (\<exists>x y. fst (get_best_bid b) = Some x \<and> fst (get_best_ask b) = Some y \<and>
            (x < y \<or> bucket (price_levels_buy b) x = [] \<or> bucket (price_levels_sell b) y = [])) \<or>
     (\<forall>q. bucket (price_levels_buy b) q = []) \<or>
     (\<forall>q. bucket (price_levels_sell b) q = [])"

text \<open>
  What a snapshot lists, said without the loop. \<open>candidates f os h\<close> are the prices of
  the entries of the heap \<open>h\<close> whose id is in the id-map, in heap order (\<open>f\<close> turns a key
  into a price). \<open>first_seen seen ps\<close> keeps each price of \<open>ps\<close> at its first occurrence
  and drops the prices already \<open>seen\<close>.
\<close>

definition candidates :: "(rat \<Rightarrow> rat) \<Rightarrow> (string \<rightharpoonup> ref) \<Rightarrow> entry list \<Rightarrow> rat list" where
  "candidates f os h = map (\<lambda>e. f (fst e)) (filter (\<lambda>e. os (snd (snd e)) \<noteq> None) h)"

fun first_seen :: "rat set \<Rightarrow> rat list \<Rightarrow> rat list" where
  "first_seen seen [] = []"
| "first_seen seen (p # ps) =
     (if p \<in> seen then first_seen seen ps else p # first_seen (insert p seen) ps)"

text \<open>
  Time priority. \<open>before xs a c\<close>: in the list \<open>xs\<close> the reference \<open>a\<close> stands somewhere
  in front of \<open>c\<close>. \<open>ahead b a c\<close>: the two rest in the same list of a ledger of \<open>b\<close>,
  \<open>a\<close> in front of \<open>c\<close>. \<open>involves t i\<close>: the order with id \<open>i\<close> is one of the two
  sides of the trade. \<open>amends_price x i\<close>: the call \<open>x\<close> is an amendment of the order
  \<open>i\<close> that supplies a price.
\<close>

definition before :: "ref list \<Rightarrow> ref \<Rightarrow> ref \<Rightarrow> bool" where
  "before xs a c \<longleftrightarrow> (\<exists>ys zs. xs = ys @ a # zs \<and> c \<in> set zs)"

definition ahead :: "book \<Rightarrow> ref \<Rightarrow> ref \<Rightarrow> bool" where
  "ahead b a c \<longleftrightarrow>
     (\<exists>q. before (bucket (price_levels_buy b) q) a c \<or>
          before (bucket (price_levels_sell b) q) a c)"

definition involves :: "trade \<Rightarrow> string \<Rightarrow> bool" where
  "involves t i \<longleftrightarrow> buy_order_id t = i \<or> sell_order_id t = i"

fun amends_price :: "op \<Rightarrow> string \<Rightarrow> bool" where
  "amends_price (Modify j (Some np) nq) i = (j = i)"
| "amends_price x i = False"

text \<open>
  \<open>same_keys objs objs'\<close>: the two stores hold the same objects up to their quantities.
\<close>

definition same_keys :: "order list \<Rightarrow> order list \<Rightarrow> bool" where
  "same_keys objs objs' \<longleftrightarrow>
     length objs' = length objs \<and>
     (\<forall>a. order_id (objs' ! a) = order_id (objs ! a) \<and> side (objs' ! a) = side (objs ! a) \<and>
          price (objs' ! a) = price (objs ! a) \<and> timestamp (objs' ! a) = timestamp (objs ! a))"

section \<open>Basic facts\<close>

subsection \<open>Ledgers\<close>


lemma bucket_dd_get [simp]: "fst (dd_get lv p) = bucket lv p"
  by (simp add: dd_get_def bucket_def split: option.splits)

lemma bucket_snd_dd_get [simp]: "bucket (snd (dd_get lv p)) q = bucket lv q"
  by (simp add: dd_get_def bucket_def split: option.splits)

lemma bucket_level_append:
  "bucket (level_append lv p a) q = (if q = p then bucket lv p @ [a] else bucket lv q)"
  by (simp add: level_append_def dd_get_def bucket_def split: option.splits)

lemma level_remove_Inr:
  "level_remove lv p a = Inr d \<longleftrightarrow>
     a \<in> set (bucket lv p) \<and>
     d = (if remove1 a (bucket lv p) = [] then lv(p := None) else lv(p \<mapsto> remove1 a (bucket lv p)))"
  by (auto simp: level_remove_def list_remove_def dd_get_def bucket_def split: option.splits)

lemma level_remove_Inl:
  "level_remove lv p a = Inl e \<longleftrightarrow> a \<notin> set (bucket lv p)"
  by (cases e) (auto simp: level_remove_def list_remove_def dd_get_def bucket_def split: option.splits)

lemma bucket_level_remove:
  "level_remove lv p a = Inr d \<Longrightarrow>
     bucket d q = (if q = p then remove1 a (bucket lv p) else bucket lv q)"
  by (auto simp: level_remove_Inr bucket_def)

lemma ledger_okD:
  "ledger_ok bs objs os lv \<Longrightarrow> a \<in> set (bucket lv p) \<Longrightarrow> ref_ok bs objs os p a"
  by (simp add: ledger_ok_def)

lemma ledger_ok_distinct: "ledger_ok bs objs os lv \<Longrightarrow> distinct (bucket lv p)"
  by (simp add: ledger_ok_def)

lemma ref_ok_add:
  assumes "ref_ok bs objs os p a" "os oid = None"
  shows "ref_ok bs (objs @ [ob]) (os(oid \<mapsto> length objs)) p a"
proof -
  from assms(1) have a: "a < length objs" and o: "os (order_id (objs ! a)) = Some a"
    by (simp_all add: ref_ok_def)
  from o assms(2) have "order_id (objs ! a) \<noteq> oid" by auto
  with assms(1) a show ?thesis by (simp add: ref_ok_def nth_append)
qed

lemma ref_ok_new:
  "order_id ob = oid \<Longrightarrow> (side ob = ''buy'') = bs \<Longrightarrow> price ob = p \<Longrightarrow>
     ref_ok bs (objs @ [ob]) (os(oid \<mapsto> length objs)) p (length objs)"
  by (simp add: ref_ok_def)

lemma ids_ok_add:
  "ids_ok objs os \<Longrightarrow> order_id ob = oid \<Longrightarrow>
     ids_ok (objs @ [ob]) (os(oid \<mapsto> length objs))"
  by (auto simp: ids_ok_def nth_append less_Suc_eq)

lemma ledger_ok_add_other:
  assumes "ledger_ok bs objs os lv" "os oid = None"
  shows "ledger_ok bs (objs @ [ob]) (os(oid \<mapsto> length objs)) lv"
  using assms by (simp add: ledger_ok_def ref_ok_add)

lemma ledger_ok_add_same:
  assumes ok: "ledger_ok bs objs os lv" and none: "os oid = None" and ob: "order_id ob = oid"
    "(side ob = ''buy'') = bs" "price ob = p"
  shows "ledger_ok bs (objs @ [ob]) (os(oid \<mapsto> length objs)) (level_append lv p (length objs))"
  unfolding ledger_ok_def
proof (intro allI conjI ballI)
  fix q
  have "length objs \<notin> set (bucket lv p)"
    using ledger_okD[OF ok, of "length objs" p] by (auto simp: ref_ok_def)
  then show "distinct (bucket (level_append lv p (length objs)) q)"
    using ledger_ok_distinct[OF ok] by (simp add: bucket_level_append)
next
  fix q a assume a: "a \<in> set (bucket (level_append lv p (length objs)) q)"
  show "ref_ok bs (objs @ [ob]) (os(oid \<mapsto> length objs)) q a"
  proof (cases "q = p \<and> a = length objs")
    case True
    then show ?thesis using ref_ok_new[OF ob] by simp
  next
    case False
    with a have "a \<in> set (bucket lv q)" by (auto simp: bucket_level_append split: if_splits)
    from ref_ok_add[OF ledger_okD[OF ok this] none] show ?thesis .
  qed
qed

lemma ledger_covers_add_other:
  assumes cov: "ledger_covers bs objs os lv" and ids: "ids_ok objs os"
    and sd: "(side ob = ''buy'') \<noteq> bs"
  shows "ledger_covers bs (objs @ [ob]) (os(oid \<mapsto> length objs)) lv"
  unfolding ledger_covers_def
proof (intro allI impI)
  fix i a
  assume h: "(os(oid \<mapsto> length objs)) i = Some a \<and> (side ((objs @ [ob]) ! a) = ''buy'') = bs"
  show "a \<in> set (bucket lv (price ((objs @ [ob]) ! a)))"
  proof (cases "i = oid")
    case True
    with h sd show ?thesis by auto
  next
    case False
    with h have o: "os i = Some a" by simp
    with ids have "a < length objs" by (simp add: ids_ok_def)
    with h o cov show ?thesis by (auto simp: ledger_covers_def nth_append)
  qed
qed

lemma ledger_covers_add_same:
  assumes cov: "ledger_covers bs objs os lv" and ids: "ids_ok objs os" and pr: "price ob = p"
  shows "ledger_covers bs (objs @ [ob]) (os(oid \<mapsto> length objs))
           (level_append lv p (length objs))"
  unfolding ledger_covers_def
proof (intro allI impI)
  fix i a
  assume h: "(os(oid \<mapsto> length objs)) i = Some a \<and> (side ((objs @ [ob]) ! a) = ''buy'') = bs"
  show "a \<in> set (bucket (level_append lv p (length objs)) (price ((objs @ [ob]) ! a)))"
  proof (cases "i = oid")
    case True
    with h pr show ?thesis by (auto simp: bucket_level_append)
  next
    case False
    with h have o: "os i = Some a" by simp
    with ids have a: "a < length objs" by (simp add: ids_ok_def)
    with h o cov have "a \<in> set (bucket lv (price (objs ! a)))"
      by (auto simp: ledger_covers_def nth_append)
    with a show ?thesis by (auto simp: bucket_level_append nth_append)
  qed
qed

lemma set_heappush [simp]: "set (heappush h e) = insert e (set h)"
  by (simp add: heappush_def set_insort_key)

lemma sorted_heappush [simp]: "sorted (heappush h e) = sorted h"
  by (simp add: heappush_def sorted_insort)


subsection \<open>Removing a reference\<close>

lemma ledger_ok_remove:
  assumes ok: "ledger_ok bs objs os lv" and rm: "level_remove lv p a = Inr d"
  shows "ledger_ok bs objs os d" and "a \<notin> set (bucket d q)"
proof -
  from rm have ain: "a \<in> set (bucket lv p)" by (simp add: level_remove_Inr)
  have b: "\<And>q. bucket d q = (if q = p then remove1 a (bucket lv p) else bucket lv q)"
    by (rule bucket_level_remove[OF rm])
  show "ledger_ok bs objs os d"
    unfolding ledger_ok_def
  proof (intro allI conjI ballI)
    fix q show "distinct (bucket d q)"
      using ledger_ok_distinct[OF ok] by (simp add: b)
  next
    fix q a' assume "a' \<in> set (bucket d q)"
    then have "a' \<in> set (bucket lv q)"
      using set_remove1_subset[of a "bucket lv p"] by (auto simp: b split: if_splits)
    then show "ref_ok bs objs os q a'" by (rule ledger_okD[OF ok])
  qed
  show "a \<notin> set (bucket d q)"
  proof (cases "q = p")
    case True
    then show ?thesis using ledger_ok_distinct[OF ok, of p] by (simp add: b)
  next
    case False
    have "price (objs ! a) = p" using ledger_okD[OF ok ain] by (simp add: ref_ok_def)
    moreover have "a \<in> set (bucket lv q) \<Longrightarrow> price (objs ! a) = q"
      using ledger_okD[OF ok, of a q] by (simp add: ref_ok_def)
    ultimately show ?thesis using False by (auto simp: b)
  qed
qed

lemma ledger_ok_absent_other_side:
  assumes "ledger_ok bs objs os lv" "(side (objs ! a) = ''buy'') \<noteq> bs"
  shows "a \<notin> set (bucket lv q)"
  using ledger_okD[OF assms(1), of a q] assms(2) by (auto simp: ref_ok_def)

lemma ref_ok_del:
  assumes "ref_ok bs objs os p a'" "os oid = Some a" "a' \<noteq> a"
  shows "ref_ok bs objs (os(oid := None)) p a'"
proof -
  from assms have "order_id (objs ! a') \<noteq> oid" by (auto simp: ref_ok_def)
  with assms(1) show ?thesis by (simp add: ref_ok_def)
qed

lemma ledger_ok_del:
  assumes "ledger_ok bs objs os lv" "os oid = Some a" "\<And>q. a \<notin> set (bucket lv q)"
  shows "ledger_ok bs objs (os(oid := None)) lv"
  unfolding ledger_ok_def
proof (intro allI conjI ballI)
  fix q show "distinct (bucket lv q)" by (rule ledger_ok_distinct[OF assms(1)])
next
  fix q a' assume a': "a' \<in> set (bucket lv q)"
  with assms(3)[of q] have "a' \<noteq> a" by auto
  from ref_ok_del[OF ledger_okD[OF assms(1) a'] assms(2) this]
  show "ref_ok bs objs (os(oid := None)) q a'" .
qed

lemma ref_ok_update:
  "ref_ok bs objs os p a' \<Longrightarrow> a' \<noteq> a \<Longrightarrow> ref_ok bs (objs[a := ob]) os p a'"
  by (simp add: ref_ok_def)

lemma ledger_ok_update_absent:
  assumes "ledger_ok bs objs os lv" "\<And>q. a \<notin> set (bucket lv q)"
  shows "ledger_ok bs (objs[a := ob]) os lv"
  unfolding ledger_ok_def
proof (intro allI conjI ballI)
  fix q show "distinct (bucket lv q)" by (rule ledger_ok_distinct[OF assms(1)])
next
  fix q a' assume a': "a' \<in> set (bucket lv q)"
  with assms(2)[of q] have "a' \<noteq> a" by auto
  from ref_ok_update[OF ledger_okD[OF assms(1) a'] this]
  show "ref_ok bs (objs[a := ob]) os q a'" .
qed

lemma ledger_ok_append_ref:
  assumes ok: "ledger_ok bs objs os lv" and ab: "\<And>q. a \<notin> set (bucket lv q)"
    and r: "ref_ok bs objs os p a"
  shows "ledger_ok bs objs os (level_append lv p a)"
  unfolding ledger_ok_def
proof (intro allI conjI ballI)
  fix q show "distinct (bucket (level_append lv p a) q)"
    using ledger_ok_distinct[OF ok] ab[of p] by (simp add: bucket_level_append)
next
  fix q a' assume "a' \<in> set (bucket (level_append lv p a) q)"
  then have "a' \<in> set (bucket lv q) \<or> (a' = a \<and> q = p)"
    by (auto simp: bucket_level_append split: if_splits)
  then show "ref_ok bs objs os q a'" using ledger_okD[OF ok] r by auto
qed

lemma ledger_covers_del:
  assumes cov: "ledger_covers bs objs os lv" and ids: "ids_ok objs os"
    and o: "os oid = Some a"
    and b: "\<And>a' q. a' \<noteq> a \<Longrightarrow> a' \<in> set (bucket lv q) \<Longrightarrow> a' \<in> set (bucket d q)"
  shows "ledger_covers bs objs (os(oid := None)) d"
  unfolding ledger_covers_def
proof (intro allI impI)
  fix i a'
  assume h: "(os(oid := None)) i = Some a' \<and> (side (objs ! a') = ''buy'') = bs"
  then have i: "i \<noteq> oid" and o': "os i = Some a'" by (auto split: if_splits)
  from ids o o' i have "a' \<noteq> a" by (auto simp: ids_ok_def)
  moreover from cov o' h have "a' \<in> set (bucket lv (price (objs ! a')))"
    by (auto simp: ledger_covers_def)
  ultimately show "a' \<in> set (bucket d (price (objs ! a')))" by (rule b)
qed

lemma bucket_level_remove_keeps:
  assumes "level_remove lv p a = Inr d" "a' \<noteq> a" "a' \<in> set (bucket lv q)"
  shows "a' \<in> set (bucket d q)"
  using assms by (auto simp: bucket_level_remove)


subsection \<open>Cancel\<close>

lemma cancel_order_None: "orders b oid = None \<Longrightarrow> cancel_order b oid = Inr (False, b)"
  by (simp add: cancel_order_def)

lemma wf_coversD:
  assumes "wf b" "orders b oid = Some a"
  shows "side (objects b ! a) = ''buy'' \<Longrightarrow>
           a \<in> set (bucket (price_levels_buy b) (price (objects b ! a)))"
    and "side (objects b ! a) \<noteq> ''buy'' \<Longrightarrow>
           a \<in> set (bucket (price_levels_sell b) (price (objects b ! a)))"
  using assms by (auto simp: wf_def ledger_covers_def)

lemma cancel_order_buy:
  assumes "wf b" "orders b oid = Some a" "side (objects b ! a) = ''buy''"
  shows "\<exists>d. level_remove (price_levels_buy b) (price (objects b ! a)) a = Inr d \<and>
           cancel_order b oid =
             Inr (True, b\<lparr>price_levels_buy := d, orders := (orders b)(oid := None)\<rparr>)"
proof -
  from wf_coversD(1)[OF assms] obtain d where
    "level_remove (price_levels_buy b) (price (objects b ! a)) a = Inr d"
    by (auto simp: level_remove_Inr)
  with assms(2,3) show ?thesis by (simp add: cancel_order_def)
qed

lemma cancel_order_sell:
  assumes "wf b" "orders b oid = Some a" "side (objects b ! a) \<noteq> ''buy''"
  shows "\<exists>d. level_remove (price_levels_sell b) (price (objects b ! a)) a = Inr d \<and>
           cancel_order b oid =
             Inr (True, b\<lparr>price_levels_sell := d, orders := (orders b)(oid := None)\<rparr>)"
proof -
  from wf_coversD(2)[OF assms] obtain d where
    "level_remove (price_levels_sell b) (price (objects b ! a)) a = Inr d"
    by (auto simp: level_remove_Inr)
  with assms(2,3) show ?thesis by (simp add: cancel_order_def)
qed

lemma index_covers_del:
  assumes "index_covers b"
  shows "index_covers (b\<lparr>price_levels_buy := d, orders := (orders b)(oid := None)\<rparr>)"
    and "index_covers (b\<lparr>price_levels_sell := d, orders := (orders b)(oid := None)\<rparr>)"
  using assms by (auto simp: index_covers_def split: if_splits)

lemma wf_cancel_buy:
  assumes wf: "wf b" and o: "orders b oid = Some a" and sd: "side (objects b ! a) = ''buy''"
    and rm: "level_remove (price_levels_buy b) (price (objects b ! a)) a = Inr d"
  shows "wf (b\<lparr>price_levels_buy := d, orders := (orders b)(oid := None)\<rparr>)"
proof -
  from wf have ids: "ids_ok (objects b) (orders b)"
    and lb: "ledger_ok True (objects b) (orders b) (price_levels_buy b)"
    and ls: "ledger_ok False (objects b) (orders b) (price_levels_sell b)"
    and cb: "ledger_covers True (objects b) (orders b) (price_levels_buy b)"
    and cs: "ledger_covers False (objects b) (orders b) (price_levels_sell b)"
    by (simp_all add: wf_def)
  have 1: "ledger_ok True (objects b) ((orders b)(oid := None)) d"
    by (rule ledger_ok_del[OF ledger_ok_remove(1)[OF lb rm] o ledger_ok_remove(2)[OF lb rm]])
  have 2: "ledger_ok False (objects b) ((orders b)(oid := None)) (price_levels_sell b)"
    by (rule ledger_ok_del[OF ls o ledger_ok_absent_other_side[OF ls]]) (simp add: sd)
  have 3: "ledger_covers True (objects b) ((orders b)(oid := None)) d"
    by (rule ledger_covers_del[OF cb ids o]) (rule bucket_level_remove_keeps[OF rm])
  have 4: "ledger_covers False (objects b) ((orders b)(oid := None)) (price_levels_sell b)"
    by (rule ledger_covers_del[OF cs ids o])
  have 5: "ids_ok (objects b) ((orders b)(oid := None))"
    using ids by (simp add: ids_ok_def)
  have 6: "index_covers (b\<lparr>price_levels_buy := d, orders := (orders b)(oid := None)\<rparr>)"
    using wf by (intro index_covers_del) (simp add: wf_def)
  from 1 2 3 4 5 6 wf show ?thesis
    by (simp add: wf_def)
qed

lemma wf_cancel_sell:
  assumes wf: "wf b" and o: "orders b oid = Some a" and sd: "side (objects b ! a) \<noteq> ''buy''"
    and rm: "level_remove (price_levels_sell b) (price (objects b ! a)) a = Inr d"
  shows "wf (b\<lparr>price_levels_sell := d, orders := (orders b)(oid := None)\<rparr>)"
proof -
  from wf have ids: "ids_ok (objects b) (orders b)"
    and lb: "ledger_ok True (objects b) (orders b) (price_levels_buy b)"
    and ls: "ledger_ok False (objects b) (orders b) (price_levels_sell b)"
    and cb: "ledger_covers True (objects b) (orders b) (price_levels_buy b)"
    and cs: "ledger_covers False (objects b) (orders b) (price_levels_sell b)"
    by (simp_all add: wf_def)
  have 1: "ledger_ok False (objects b) ((orders b)(oid := None)) d"
    by (rule ledger_ok_del[OF ledger_ok_remove(1)[OF ls rm] o ledger_ok_remove(2)[OF ls rm]])
  have 2: "ledger_ok True (objects b) ((orders b)(oid := None)) (price_levels_buy b)"
    by (rule ledger_ok_del[OF lb o ledger_ok_absent_other_side[OF lb]]) (simp add: sd)
  have 3: "ledger_covers False (objects b) ((orders b)(oid := None)) d"
    by (rule ledger_covers_del[OF cs ids o]) (rule bucket_level_remove_keeps[OF rm])
  have 4: "ledger_covers True (objects b) ((orders b)(oid := None)) (price_levels_buy b)"
    by (rule ledger_covers_del[OF cb ids o])
  have 5: "ids_ok (objects b) ((orders b)(oid := None))"
    using ids by (simp add: ids_ok_def)
  have 6: "index_covers (b\<lparr>price_levels_sell := d, orders := (orders b)(oid := None)\<rparr>)"
    using wf by (intro index_covers_del) (simp add: wf_def)
  from 1 2 3 4 5 6 wf show ?thesis
    by (simp add: wf_def)
qed

text \<open>On a well-formed book \<open>cancel_order\<close> raises nothing and keeps the book well-formed.\<close>

lemma wf_cancel_order:
  assumes "wf b"
  shows "\<exists>b'. cancel_order b oid = Inr (orders b oid \<noteq> None, b') \<and> wf b'"
proof (cases "orders b oid")
  case None
  with assms show ?thesis by (simp add: cancel_order_None)
next
  case (Some a)
  show ?thesis
  proof (cases "side (objects b ! a) = ''buy''")
    case True
    from cancel_order_buy[OF assms Some True] wf_cancel_buy[OF assms Some True] Some
    show ?thesis by auto
  next
    case False
    from cancel_order_sell[OF assms Some False] wf_cancel_sell[OF assms Some False] Some
    show ?thesis by auto
  qed
qed


subsection \<open>Add\<close>

lemma wfD:
  assumes "wf b"
  shows "finite (dom (orders b))" "ids_ok (objects b) (orders b)"
    "ledger_ok True (objects b) (orders b) (price_levels_buy b)"
    "ledger_ok False (objects b) (orders b) (price_levels_sell b)"
    "ledger_covers True (objects b) (orders b) (price_levels_buy b)"
    "ledger_covers False (objects b) (orders b) (price_levels_sell b)"
    "sorted (buy_orders b)" "sorted (sell_orders b)" "index_covers b"
  using assms by (simp_all add: wf_def)

lemma add_order_dup: "orders b oid \<noteq> None \<Longrightarrow> add_order b now oid sd p q = (False, b)"
  by (simp add: add_order_def)

lemma add_order_buy:
  "orders b oid = None \<Longrightarrow>
     add_order b now oid ''buy'' p q =
       (True, b\<lparr>objects := objects b @
                   [\<lparr>order_id = oid, side = ''buy'', price = p, quantity = q, timestamp = now\<rparr>],
                 orders := (orders b)(oid \<mapsto> length (objects b)),
                 buy_orders := heappush (buy_orders b) (- p, now, oid),
                 price_levels_buy := level_append (price_levels_buy b) p (length (objects b))\<rparr>)"
  by (simp add: add_order_def Let_def)

lemma add_order_sell:
  "orders b oid = None \<Longrightarrow> sd \<noteq> ''buy'' \<Longrightarrow>
     add_order b now oid sd p q =
       (True, b\<lparr>objects := objects b @
                   [\<lparr>order_id = oid, side = sd, price = p, quantity = q, timestamp = now\<rparr>],
                 orders := (orders b)(oid \<mapsto> length (objects b)),
                 sell_orders := heappush (sell_orders b) (p, now, oid),
                 price_levels_sell := level_append (price_levels_sell b) p (length (objects b))\<rparr>)"
  by (simp add: add_order_def Let_def)

lemma index_covers_add:
  assumes "index_covers b" "ids_ok (objects b) (orders b)"
  shows "index_covers (b\<lparr>objects := objects b @
                   [\<lparr>order_id = oid, side = ''buy'', price = p, quantity = q, timestamp = now\<rparr>],
                 orders := (orders b)(oid \<mapsto> length (objects b)),
                 buy_orders := heappush (buy_orders b) (- p, now, oid),
                 price_levels_buy := lv\<rparr>)"
    and "sd \<noteq> ''buy'' \<Longrightarrow> index_covers (b\<lparr>objects := objects b @
                   [\<lparr>order_id = oid, side = sd, price = p, quantity = q, timestamp = now\<rparr>],
                 orders := (orders b)(oid \<mapsto> length (objects b)),
                 sell_orders := heappush (sell_orders b) (p, now, oid),
                 price_levels_sell := lv\<rparr>)"
  using assms unfolding index_covers_def ids_ok_def
  by (auto simp: nth_append)

lemma wf_add_order:
  assumes wf: "wf b"
  shows "wf (snd (add_order b now oid sd p q))"
proof (cases "orders b oid")
  case (Some a)
  with assms show ?thesis by (simp add: add_order_def)
next
  case None
  let ?ob = "\<lparr>order_id = oid, side = sd, price = p, quantity = q, timestamp = now\<rparr>"
  let ?objs = "objects b @ [?ob]"
  let ?os = "(orders b)(oid \<mapsto> length (objects b))"
  note w = wfD[OF wf]
  have ids: "ids_ok ?objs ?os" by (rule ids_ok_add[OF w(2)]) simp
  show ?thesis
  proof (cases "sd = ''buy''")
    case True
    have "ledger_ok True ?objs ?os (level_append (price_levels_buy b) p (length (objects b)))"
      by (rule ledger_ok_add_same[OF w(3) None]) (simp_all add: True)
    moreover have "ledger_ok False ?objs ?os (price_levels_sell b)"
      by (rule ledger_ok_add_other[OF w(4) None])
    moreover have "ledger_covers True ?objs ?os
                     (level_append (price_levels_buy b) p (length (objects b)))"
      by (rule ledger_covers_add_same[OF w(5) w(2)]) simp
    moreover have "ledger_covers False ?objs ?os (price_levels_sell b)"
      by (rule ledger_covers_add_other[OF w(6) w(2)]) (simp add: True)
    ultimately show ?thesis
      using ids w(1,7,8) index_covers_add(1)[OF w(9) w(2)] None True
      by (simp add: wf_def add_order_buy)
  next
    case False
    have "ledger_ok False ?objs ?os (level_append (price_levels_sell b) p (length (objects b)))"
      by (rule ledger_ok_add_same[OF w(4) None]) (simp_all add: False)
    moreover have "ledger_ok True ?objs ?os (price_levels_buy b)"
      by (rule ledger_ok_add_other[OF w(3) None])
    moreover have "ledger_covers False ?objs ?os
                     (level_append (price_levels_sell b) p (length (objects b)))"
      by (rule ledger_covers_add_same[OF w(6) w(2)]) simp
    moreover have "ledger_covers True ?objs ?os (price_levels_buy b)"
      by (rule ledger_covers_add_other[OF w(5) w(2)]) (simp add: False)
    ultimately show ?thesis
      using ids w(1,7,8) index_covers_add(2)[OF w(9) w(2) False] None False
      by (simp add: wf_def add_order_sell)
  qed
qed

subsection \<open>Writes to an object that keep its id, side and price\<close>

lemma ref_ok_cong:
  assumes "ref_ok bs objs os p a" "length objs' = length objs"
    "order_id (objs' ! a) = order_id (objs ! a)" "side (objs' ! a) = side (objs ! a)"
    "price (objs' ! a) = price (objs ! a)"
  shows "ref_ok bs objs' os p a"
  using assms by (simp add: ref_ok_def)

lemma same_keys_set_quantity:
  "same_keys objs (objs[a := (objs ! a)\<lparr>quantity := q\<rparr>])"
  unfolding same_keys_def
proof (intro conjI allI)
  fix a'
  show "order_id (objs[a := (objs ! a)\<lparr>quantity := q\<rparr>] ! a') = order_id (objs ! a')"
    by (cases "a' = a"; cases "a < length objs") (simp_all add: list_update_beyond)
  show "side (objs[a := (objs ! a)\<lparr>quantity := q\<rparr>] ! a') = side (objs ! a')"
    by (cases "a' = a"; cases "a < length objs") (simp_all add: list_update_beyond)
  show "price (objs[a := (objs ! a)\<lparr>quantity := q\<rparr>] ! a') = price (objs ! a')"
    by (cases "a' = a"; cases "a < length objs") (simp_all add: list_update_beyond)
  show "timestamp (objs[a := (objs ! a)\<lparr>quantity := q\<rparr>] ! a') = timestamp (objs ! a')"
    by (cases "a' = a"; cases "a < length objs") (simp_all add: list_update_beyond)
qed simp

lemma same_keys_ids_ok: "same_keys objs objs' \<Longrightarrow> ids_ok objs os \<Longrightarrow> ids_ok objs' os"
  by (simp add: same_keys_def ids_ok_def)

lemma same_keys_ledger_ok:
  "same_keys objs objs' \<Longrightarrow> ledger_ok bs objs os lv \<Longrightarrow> ledger_ok bs objs' os lv"
  by (simp add: same_keys_def ledger_ok_def ref_ok_def)

lemma same_keys_ledger_covers:
  "same_keys objs objs' \<Longrightarrow> ledger_covers bs objs os lv \<Longrightarrow> ledger_covers bs objs' os lv"
  by (simp add: same_keys_def ledger_covers_def)

lemma same_keys_index_covers:
  "same_keys (objects b) objs' \<Longrightarrow> index_covers b \<Longrightarrow> index_covers (b\<lparr>objects := objs'\<rparr>)"
  by (simp add: same_keys_def index_covers_def)

lemma wf_same_keys:
  assumes "wf b" "same_keys (objects b) objs'"
  shows "wf (b\<lparr>objects := objs'\<rparr>)"
  using wfD[OF assms(1)] assms(2)
  by (simp add: wf_def same_keys_ids_ok same_keys_ledger_ok same_keys_ledger_covers
      same_keys_index_covers)

lemma wf_set_quantity: "wf b \<Longrightarrow> wf (set_quantity b a q)"
  unfolding set_quantity_def by (rule wf_same_keys[OF _ same_keys_set_quantity])


subsection \<open>Reprice\<close>

lemma ids_ok_reprice:
  "ids_ok objs os \<Longrightarrow> ids_ok (objs[a := (objs ! a)\<lparr>price := np\<rparr>]) os"
  unfolding ids_ok_def
proof (intro allI impI)
  fix i a' assume h: "\<forall>i a. os i = Some a \<longrightarrow> a < length objs \<and> order_id (objs ! a) = i"
    and o: "os i = Some a'"
  then have "a' < length objs" "order_id (objs ! a') = i" by auto
  then show "a' < length (objs[a := (objs ! a)\<lparr>price := np\<rparr>]) \<and>
             order_id (objs[a := (objs ! a)\<lparr>price := np\<rparr>] ! a') = i"
    by (cases "a' = a") simp_all
qed

lemma ledger_covers_reprice:
  assumes cov: "ledger_covers bs objs os lv" and a: "a < length objs"
    and keep: "\<And>a' q. a' \<noteq> a \<Longrightarrow> a' \<in> set (bucket lv q) \<Longrightarrow> a' \<in> set (bucket lv' q)"
    and new: "(side (objs ! a) = ''buy'') = bs \<Longrightarrow> a \<in> set (bucket lv' np)"
  shows "ledger_covers bs (objs[a := (objs ! a)\<lparr>price := np\<rparr>]) os lv'"
  unfolding ledger_covers_def
proof (intro allI impI)
  fix i a'
  assume h: "os i = Some a' \<and>
             (side (objs[a := (objs ! a)\<lparr>price := np\<rparr>] ! a') = ''buy'') = bs"
  show "a' \<in> set (bucket lv' (price (objs[a := (objs ! a)\<lparr>price := np\<rparr>] ! a')))"
  proof (cases "a' = a")
    case True
    with h a new show ?thesis by simp
  next
    case False
    with h cov have "a' \<in> set (bucket lv (price (objs ! a')))"
      by (auto simp: ledger_covers_def)
    from keep[OF False this] False show ?thesis by simp
  qed
qed

lemma reprice_buy:
  assumes "wf b" "orders b oid = Some a" "side (objects b ! a) = ''buy''"
  shows "\<exists>d. level_remove (price_levels_buy b) (price (objects b ! a)) a = Inr d \<and>
           reprice b oid a np =
             Inr (b\<lparr>objects := (objects b)[a := (objects b ! a)\<lparr>price := np\<rparr>],
                    price_levels_buy := level_append d np a,
                    buy_orders := heappush (buy_orders b) (- np, timestamp (objects b ! a), oid)\<rparr>)"
proof -
  from wf_coversD(1)[OF assms] obtain d where
    "level_remove (price_levels_buy b) (price (objects b ! a)) a = Inr d"
    by (auto simp: level_remove_Inr)
  with assms(3) show ?thesis by (simp add: reprice_def)
qed

lemma wf_reprice_buy:
  assumes wf: "wf b" and o: "orders b oid = Some a" and sd: "side (objects b ! a) = ''buy''"
    and rm: "level_remove (price_levels_buy b) (price (objects b ! a)) a = Inr d"
  shows "wf (b\<lparr>objects := (objects b)[a := (objects b ! a)\<lparr>price := np\<rparr>],
               price_levels_buy := level_append d np a,
               buy_orders := heappush (buy_orders b) (- np, timestamp (objects b ! a), oid)\<rparr>)"
proof -
  let ?objs = "(objects b)[a := (objects b ! a)\<lparr>price := np\<rparr>]"
  note w = wfD[OF wf]
  from w(2) o have a: "a < length (objects b)" and oid: "order_id (objects b ! a) = oid"
    by (auto simp: ids_ok_def)
  have ids: "ids_ok ?objs (orders b)" by (rule ids_ok_reprice[OF w(2)])
  have r: "ref_ok True ?objs (orders b) np a"
    using a oid o sd by (simp add: ref_ok_def)
  have 1: "ledger_ok True ?objs (orders b) (level_append d np a)"
    by (rule ledger_ok_append_ref[OF
          ledger_ok_update_absent[OF ledger_ok_remove(1)[OF w(3) rm] ledger_ok_remove(2)[OF w(3) rm]]
          ledger_ok_remove(2)[OF w(3) rm] r])
  have 2: "ledger_ok False ?objs (orders b) (price_levels_sell b)"
    by (rule ledger_ok_update_absent[OF w(4) ledger_ok_absent_other_side[OF w(4)]]) (simp add: sd)
  have 3: "ledger_covers True ?objs (orders b) (level_append d np a)"
  proof (rule ledger_covers_reprice[OF w(5) a])
    fix a' q assume "a' \<noteq> a" "a' \<in> set (bucket (price_levels_buy b) q)"
    from bucket_level_remove_keeps[OF rm this]
    show "a' \<in> set (bucket (level_append d np a) q)" by (auto simp: bucket_level_append)
  qed (simp add: bucket_level_append)
  have 4: "ledger_covers False ?objs (orders b) (price_levels_sell b)"
    by (rule ledger_covers_reprice[OF w(6) a]) (simp_all add: sd)
  have 5: "index_covers (b\<lparr>objects := ?objs, price_levels_buy := level_append d np a,
               buy_orders := heappush (buy_orders b) (- np, timestamp (objects b ! a), oid)\<rparr>)"
    unfolding index_covers_def
  proof (intro allI impI)
    fix i a'
    assume "orders (b\<lparr>objects := ?objs, price_levels_buy := level_append d np a,
               buy_orders := heappush (buy_orders b) (- np, timestamp (objects b ! a), oid)\<rparr>) i
             = Some a'"
    then have i: "orders b i = Some a'" by simp
    show "if side (objects (b\<lparr>objects := ?objs, price_levels_buy := level_append d np a,
               buy_orders := heappush (buy_orders b) (- np, timestamp (objects b ! a), oid)\<rparr>) ! a')
               = ''buy''
          then (- price (objects (b\<lparr>objects := ?objs, price_levels_buy := level_append d np a,
               buy_orders := heappush (buy_orders b) (- np, timestamp (objects b ! a), oid)\<rparr>) ! a'),
                timestamp (objects (b\<lparr>objects := ?objs, price_levels_buy := level_append d np a,
               buy_orders := heappush (buy_orders b) (- np, timestamp (objects b ! a), oid)\<rparr>) ! a'), i)
               \<in> set (buy_orders (b\<lparr>objects := ?objs, price_levels_buy := level_append d np a,
               buy_orders := heappush (buy_orders b) (- np, timestamp (objects b ! a), oid)\<rparr>))
          else (price (objects (b\<lparr>objects := ?objs, price_levels_buy := level_append d np a,
               buy_orders := heappush (buy_orders b) (- np, timestamp (objects b ! a), oid)\<rparr>) ! a'),
                timestamp (objects (b\<lparr>objects := ?objs, price_levels_buy := level_append d np a,
               buy_orders := heappush (buy_orders b) (- np, timestamp (objects b ! a), oid)\<rparr>) ! a'), i)
               \<in> set (sell_orders (b\<lparr>objects := ?objs, price_levels_buy := level_append d np a,
               buy_orders := heappush (buy_orders b) (- np, timestamp (objects b ! a), oid)\<rparr>))"
    proof (cases "a' = a")
      case True
      with i w(2) oid have "i = oid" by (auto simp: ids_ok_def)
      with True a sd show ?thesis by simp
    next
      case False
      with w(9) i show ?thesis by (auto simp: index_covers_def)
    qed
  qed
  from 1 2 3 4 5 ids w(1,7,8) show ?thesis by (simp add: wf_def)
qed

lemma reprice_sell:
  assumes "wf b" "orders b oid = Some a" "side (objects b ! a) \<noteq> ''buy''"
  shows "\<exists>d. level_remove (price_levels_sell b) (price (objects b ! a)) a = Inr d \<and>
           reprice b oid a np =
             Inr (b\<lparr>objects := (objects b)[a := (objects b ! a)\<lparr>price := np\<rparr>],
                    price_levels_sell := level_append d np a,
                    sell_orders := heappush (sell_orders b) (np, timestamp (objects b ! a), oid)\<rparr>)"
proof -
  from wf_coversD(2)[OF assms] obtain d where
    "level_remove (price_levels_sell b) (price (objects b ! a)) a = Inr d"
    by (auto simp: level_remove_Inr)
  with assms(3) show ?thesis by (simp add: reprice_def)
qed

lemma wf_reprice_sell:
  assumes wf: "wf b" and o: "orders b oid = Some a" and sd: "side (objects b ! a) \<noteq> ''buy''"
    and rm: "level_remove (price_levels_sell b) (price (objects b ! a)) a = Inr d"
  shows "wf (b\<lparr>objects := (objects b)[a := (objects b ! a)\<lparr>price := np\<rparr>],
               price_levels_sell := level_append d np a,
               sell_orders := heappush (sell_orders b) (np, timestamp (objects b ! a), oid)\<rparr>)"
proof -
  let ?objs = "(objects b)[a := (objects b ! a)\<lparr>price := np\<rparr>]"
  note w = wfD[OF wf]
  from w(2) o have a: "a < length (objects b)" and oid: "order_id (objects b ! a) = oid"
    by (auto simp: ids_ok_def)
  have ids: "ids_ok ?objs (orders b)" by (rule ids_ok_reprice[OF w(2)])
  have r: "ref_ok False ?objs (orders b) np a"
    using a oid o sd by (simp add: ref_ok_def)
  have 1: "ledger_ok False ?objs (orders b) (level_append d np a)"
    by (rule ledger_ok_append_ref[OF
          ledger_ok_update_absent[OF ledger_ok_remove(1)[OF w(4) rm] ledger_ok_remove(2)[OF w(4) rm]]
          ledger_ok_remove(2)[OF w(4) rm] r])
  have 2: "ledger_ok True ?objs (orders b) (price_levels_buy b)"
    by (rule ledger_ok_update_absent[OF w(3) ledger_ok_absent_other_side[OF w(3)]]) (simp add: sd)
  have 3: "ledger_covers False ?objs (orders b) (level_append d np a)"
  proof (rule ledger_covers_reprice[OF w(6) a])
    fix a' q assume "a' \<noteq> a" "a' \<in> set (bucket (price_levels_sell b) q)"
    from bucket_level_remove_keeps[OF rm this]
    show "a' \<in> set (bucket (level_append d np a) q)" by (auto simp: bucket_level_append)
  qed (simp add: bucket_level_append)
  have 4: "ledger_covers True ?objs (orders b) (price_levels_buy b)"
    by (rule ledger_covers_reprice[OF w(5) a]) (simp_all add: sd)
  have 5: "index_covers (b\<lparr>objects := ?objs, price_levels_sell := level_append d np a,
               sell_orders := heappush (sell_orders b) (np, timestamp (objects b ! a), oid)\<rparr>)"
    unfolding index_covers_def
  proof (intro allI impI)
    fix i a'
    assume "orders (b\<lparr>objects := ?objs, price_levels_sell := level_append d np a,
               sell_orders := heappush (sell_orders b) (np, timestamp (objects b ! a), oid)\<rparr>) i
             = Some a'"
    then have i: "orders b i = Some a'" by simp
    show "if side (objects (b\<lparr>objects := ?objs, price_levels_sell := level_append d np a,
               sell_orders := heappush (sell_orders b) (np, timestamp (objects b ! a), oid)\<rparr>) ! a')
               = ''buy''
          then (- price (objects (b\<lparr>objects := ?objs, price_levels_sell := level_append d np a,
               sell_orders := heappush (sell_orders b) (np, timestamp (objects b ! a), oid)\<rparr>) ! a'),
                timestamp (objects (b\<lparr>objects := ?objs, price_levels_sell := level_append d np a,
               sell_orders := heappush (sell_orders b) (np, timestamp (objects b ! a), oid)\<rparr>) ! a'), i)
               \<in> set (buy_orders (b\<lparr>objects := ?objs, price_levels_sell := level_append d np a,
               sell_orders := heappush (sell_orders b) (np, timestamp (objects b ! a), oid)\<rparr>))
          else (price (objects (b\<lparr>objects := ?objs, price_levels_sell := level_append d np a,
               sell_orders := heappush (sell_orders b) (np, timestamp (objects b ! a), oid)\<rparr>) ! a'),
                timestamp (objects (b\<lparr>objects := ?objs, price_levels_sell := level_append d np a,
               sell_orders := heappush (sell_orders b) (np, timestamp (objects b ! a), oid)\<rparr>) ! a'), i)
               \<in> set (sell_orders (b\<lparr>objects := ?objs, price_levels_sell := level_append d np a,
               sell_orders := heappush (sell_orders b) (np, timestamp (objects b ! a), oid)\<rparr>))"
    proof (cases "a' = a")
      case True
      with i w(2) oid have "i = oid" by (auto simp: ids_ok_def)
      with True a sd show ?thesis by simp
    next
      case False
      with w(9) i show ?thesis by (auto simp: index_covers_def)
    qed
  qed
  from 1 2 3 4 5 ids w(1,7,8) show ?thesis by (simp add: wf_def)
qed


subsection \<open>Modify\<close>

lemma modify_order_None: "orders b oid = None \<Longrightarrow> modify_order b oid np nq = Inr (False, b)"
  by (simp add: modify_order_def)

lemma wf_reprice:
  assumes "wf b" "orders b oid = Some a"
  shows "\<exists>b'. reprice b oid a np = Inr b' \<and> wf b' \<and> orders b' = orders b"
proof (cases "side (objects b ! a) = ''buy''")
  case True
  from reprice_buy[OF assms True, of np] wf_reprice_buy[OF assms True, of _ np]
  show ?thesis by auto
next
  case False
  from reprice_sell[OF assms False, of np] wf_reprice_sell[OF assms False, of _ np]
  show ?thesis by auto
qed

lemma orders_set_quantity [simp]: "orders (set_quantity b a q) = orders b"
  by (simp add: set_quantity_def)

lemma wf_modify_order:
  assumes "wf b"
  shows "\<exists>b'. modify_order b oid np nq = Inr (orders b oid \<noteq> None, b') \<and> wf b' \<and>
           orders b' = orders b"
proof (cases "orders b oid")
  case None
  with assms show ?thesis by (simp add: modify_order_None)
next
  case (Some a)
  have "\<exists>b1. (case np of None \<Rightarrow> Inr b | Some p \<Rightarrow> reprice b oid a p) = Inr b1 \<and> wf b1 \<and>
          orders b1 = orders b"
    using assms wf_reprice[OF assms Some] by (cases np) auto
  then obtain b1 where b1: "(case np of None \<Rightarrow> Inr b | Some p \<Rightarrow> reprice b oid a p) = Inr b1"
    "wf b1" "orders b1 = orders b" by blast
  have "wf (case nq of None \<Rightarrow> b1 | Some q \<Rightarrow> set_quantity b1 a q)"
    using b1(2) by (cases nq) (simp_all add: wf_set_quantity)
  moreover have "orders (case nq of None \<Rightarrow> b1 | Some q \<Rightarrow> set_quantity b1 a q) = orders b"
    using b1(3) by (cases nq) simp_all
  ultimately show ?thesis using Some b1(1) by (simp add: modify_order_def)
qed

subsection \<open>Best prices\<close>

lemma best_loop_snd: "snd (best_loop os h) = dropWhile (\<lambda>e. os (snd (snd e)) = None) h"
  by (induction os h rule: best_loop.induct) auto

lemma best_loop_fst:
  "fst (best_loop os h) =
     (case dropWhile (\<lambda>e. os (snd (snd e)) = None) h of [] \<Rightarrow> None | e # _ \<Rightarrow> Some (fst e))"
  by (induction os h rule: best_loop.induct) auto

lemma best_loop_sorted: "sorted h \<Longrightarrow> sorted (snd (best_loop os h))"
  by (simp add: best_loop_snd sorted_dropWhile)

lemma best_loop_keeps:
  "(k, t, i) \<in> set h \<Longrightarrow> os i \<noteq> None \<Longrightarrow> (k, t, i) \<in> set (snd (best_loop os h))"
  by (induction os h rule: best_loop.induct) auto

lemma best_loop_subset: "set (snd (best_loop os h)) \<subseteq> set h"
  by (simp add: best_loop_snd set_dropWhileD subsetI)

lemma get_best_bid_fields [simp]:
  "objects (snd (get_best_bid b)) = objects b"
  "orders (snd (get_best_bid b)) = orders b"
  "price_levels_buy (snd (get_best_bid b)) = price_levels_buy b"
  "price_levels_sell (snd (get_best_bid b)) = price_levels_sell b"
  "sell_orders (snd (get_best_bid b)) = sell_orders b"
  "buy_orders (snd (get_best_bid b)) = snd (best_loop (orders b) (buy_orders b))"
  by (simp_all add: get_best_bid_def split: prod.splits option.splits)

lemma get_best_ask_fields [simp]:
  "objects (snd (get_best_ask b)) = objects b"
  "orders (snd (get_best_ask b)) = orders b"
  "price_levels_buy (snd (get_best_ask b)) = price_levels_buy b"
  "price_levels_sell (snd (get_best_ask b)) = price_levels_sell b"
  "buy_orders (snd (get_best_ask b)) = buy_orders b"
  "sell_orders (snd (get_best_ask b)) = snd (best_loop (orders b) (sell_orders b))"
  by (simp_all add: get_best_ask_def split: prod.splits option.splits)

lemma wf_get_best_bid: assumes "wf b" shows "wf (snd (get_best_bid b))"
proof -
  note w = wfD[OF assms]
  have "index_covers (snd (get_best_bid b))"
    using w(9) unfolding index_covers_def
    by (auto intro!: best_loop_keeps)
  with w show ?thesis by (simp add: wf_def best_loop_sorted)
qed

lemma wf_get_best_ask: assumes "wf b" shows "wf (snd (get_best_ask b))"
proof -
  note w = wfD[OF assms]
  have "index_covers (snd (get_best_ask b))"
    using w(9) unfolding index_covers_def
    by (auto intro!: best_loop_keeps)
  with w show ?thesis by (simp add: wf_def best_loop_sorted)
qed

lemma get_spread_snd: "snd (get_spread b) = snd (get_best_ask (snd (get_best_bid b)))"
  by (simp add: get_spread_def split: prod.splits option.splits)

lemma wf_get_spread: "wf b \<Longrightarrow> wf (snd (get_spread b))"
  by (simp add: get_spread_snd wf_get_best_ask wf_get_best_bid)


section \<open>Failing calls and the absence of validation\<close>

text \<open>
  Claim C7. A failing call is atomic: \<open>add_order\<close> with an id that is in the id-map,
  and \<open>cancel_order\<close> or \<open>modify_order\<close> with an id that is not, return the failure
  result (\<open>False\<close>, no exception) and the book they were given, unchanged in every
  component: store, id-map, both ledgers and both heaps.
\<close>

theorem failed_calls_change_nothing:
  "(orders b oid \<noteq> None \<longrightarrow> add_order b now oid sd p q = (False, b)) \<and>
   (orders b oid = None \<longrightarrow>
      cancel_order b oid = Inr (False, b) \<and> modify_order b oid np nq = Inr (False, b))"
  by (simp add: add_order_dup cancel_order_None modify_order_None)

theorem failed_calls_change_nothing_witness:
  "orders (snd (add_order init 1 ''a'' ''buy'' 100 10)) ''a'' \<noteq> None \<and>
   add_order (snd (add_order init 1 ''a'' ''buy'' 100 10)) 2 ''a'' ''sell'' 5 7 =
     (False, snd (add_order init 1 ''a'' ''buy'' 100 10)) \<and>
   orders init ''x'' = None \<and>
   cancel_order init ''x'' = Inr (False, init) \<and>
   modify_order init ''x'' (Some 3) (Some 4) = Inr (False, init)"
proof -
  have 1: "orders (snd (add_order init 1 ''a'' ''buy'' 100 10)) ''a'' \<noteq> None"
    by (simp add: add_order_def init_def Let_def)
  have 2: "orders init ''x'' = None" by (simp add: init_def)
  from 1 2
    failed_calls_change_nothing[of "snd (add_order init 1 ''a'' ''buy'' 100 10)" "''a''" 2 "''sell''" 5 7]
    failed_calls_change_nothing[of init "''x''" _ _ _ _ "Some 3" "Some 4"]
  show ?thesis by blast
qed

text \<open>
  Claim C10. \<open>add_order\<close> validates nothing: it fails exactly when the id is already in
  the id-map. For every other id, and any side, price and quantity (zero and negative
  ones included), it returns \<open>True\<close>, allocates the order with the values given, maps
  the id to it, appends it to the list of its price on its side and pushes its entry
  on the heap of its side.
\<close>

theorem add_order_never_validates:
  "fst (add_order b now oid sd p q) = (orders b oid = None) \<and>
   (orders b oid = None \<longrightarrow>
      orders (snd (add_order b now oid sd p q)) oid = Some (length (objects b)) \<and>
      objects (snd (add_order b now oid sd p q)) =
        objects b @ [\<lparr>order_id = oid, side = sd, price = p, quantity = q, timestamp = now\<rparr>] \<and>
      (if sd = ''buy''
       then price_levels_buy (snd (add_order b now oid sd p q)) p =
              Some (bucket (price_levels_buy b) p @ [length (objects b)]) \<and>
            set (buy_orders (snd (add_order b now oid sd p q))) =
              insert (- p, now, oid) (set (buy_orders b))
       else price_levels_sell (snd (add_order b now oid sd p q)) p =
              Some (bucket (price_levels_sell b) p @ [length (objects b)]) \<and>
            set (sell_orders (snd (add_order b now oid sd p q))) =
              insert (p, now, oid) (set (sell_orders b))))"
  by (cases "sd = ''buy''")
     (auto simp: add_order_def Let_def level_append_def dd_get_def bucket_def heappush_def
        set_insort_key split: option.splits)

theorem add_order_never_validates_witness:
  "orders init ''z'' = None \<and>
   fst (add_order init 5 ''z'' ''sell'' 0 (- 3)) \<and>
   orders (snd (add_order init 5 ''z'' ''sell'' 0 (- 3))) ''z'' = Some 0 \<and>
   objects (snd (add_order init 5 ''z'' ''sell'' 0 (- 3))) =
     [\<lparr>order_id = ''z'', side = ''sell'', price = 0, quantity = - 3, timestamp = 5\<rparr>] \<and>
   price_levels_sell (snd (add_order init 5 ''z'' ''sell'' 0 (- 3))) 0 = Some [0]"
proof -
  have 1: "orders init ''z'' = None" by (simp add: init_def)
  have 2: "objects init = []" "bucket (price_levels_sell init) 0 = []"
    by (simp_all add: init_def bucket_def)
  from add_order_never_validates[of init 5 "''z''" "''sell''" 0 "- 3"] 1 2
  show ?thesis by simp
qed

section \<open>The example of the specification\<close>

lemmas eval_defs = add_order_def init_def heappush_def level_append_def dd_get_def
  get_best_bid_def get_best_ask_def get_spread_def match_orders_def match_round_def settle_def
  fill_def retire_def set_quantity_def cancel_order_def level_remove_def list_remove_def
  less_eq_prod_def less_prod_def modify_order_def reprice_def get_order_book_snapshot_def
  level_total_def Let_def

text \<open>
  Claim C9. From the empty book, whatever the clock reads at the four additions: after
  buy1 (buy, 100, 10), buy2 (buy, 99.5, 5) and sell1 (sell, 102, 12) the best bid is 100,
  the best ask 102, the spread 2 and \<open>match_orders\<close> returns no trade; after buy3
  (buy, 103, 6) is added, \<open>match_orders\<close> returns the single trade of buy3 with sell1
  at 102 for 6, sell1 stays in the book with quantity 6 and buy3 is gone from the id-map
  and from the ledger.
\<close>

theorem spec_example:
  "\<exists>b. exec init
         [Add t1 ''buy1'' ''buy'' 100 10, Add t2 ''buy2'' ''buy'' (199 / 2) 5,
          Add t3 ''sell1'' ''sell'' 102 12, Best_Bid, Best_Ask, Spread, Match,
          Add t4 ''buy3'' ''buy'' 103 6, Match] =
        Some (Inr ([Ack True, Ack True, Ack True,
                    Quote (Some 100), Quote (Some 102), Quote (Some 2), Trades [],
                    Ack True,
                    Trades [\<lparr>buy_order_id = ''buy3'', sell_order_id = ''sell1'',
                             trade_price = 102, trade_quantity = 6\<rparr>]], b)) \<and>
       orders b ''sell1'' = Some 2 \<and> quantity (objects b ! 2) = 6 \<and>
       price_levels_sell b 102 = Some [2] \<and>
       orders b ''buy3'' = None \<and> price_levels_buy b 103 = None"
  by (simp add: eval_defs match_loop.simps)

subsection \<open>Snapshot\<close>

lemma ledger_ok_bucket_cong:
  "(\<And>q. bucket lv' q = bucket lv q) \<Longrightarrow> ledger_ok bs objs os lv' = ledger_ok bs objs os lv"
  by (simp add: ledger_ok_def)

lemma ledger_covers_bucket_cong:
  "(\<And>q. bucket lv' q = bucket lv q) \<Longrightarrow>
     ledger_covers bs objs os lv' = ledger_covers bs objs os lv"
  by (simp add: ledger_covers_def)

lemma snapshot_loop_Cons:
  "snapshot_loop f depth os objs ((k, t, i) # temp) seen acc lv =
     (if int (length acc) < depth
      then (if f k \<notin> seen \<and> os i \<noteq> None
            then snapshot_loop f depth os objs temp (insert (f k) seen)
                   (acc @ [(f k, level_total objs (bucket lv (f k)))]) (snd (dd_get lv (f k)))
            else snapshot_loop f depth os objs temp seen acc lv)
      else (acc, lv))"
  using bucket_dd_get[of lv "f k"] by (simp add: case_prod_beta del: bucket_dd_get)

lemma bucket_snapshot_loop:
  "bucket (snd (snapshot_loop f depth os objs temp seen acc lv)) q = bucket lv q"
proof (induction temp arbitrary: seen acc lv)
  case Nil
  show ?case by simp
next
  case (Cons e temp)
  obtain k t i where e: "e = (k, t, i)" by (cases e)
  show ?case unfolding e snapshot_loop_Cons by (simp add: Cons.IH)
qed

lemma get_order_book_snapshot_fields [simp]:
  "objects (snd (get_order_book_snapshot b depth)) = objects b"
  "orders (snd (get_order_book_snapshot b depth)) = orders b"
  "buy_orders (snd (get_order_book_snapshot b depth)) = buy_orders b"
  "sell_orders (snd (get_order_book_snapshot b depth)) = sell_orders b"
  "price_levels_buy (snd (get_order_book_snapshot b depth)) =
     snd (snapshot_loop uminus depth (orders b) (objects b) (buy_orders b) {} []
            (price_levels_buy b))"
  "price_levels_sell (snd (get_order_book_snapshot b depth)) =
     snd (snapshot_loop (\<lambda>p. p) depth (orders b) (objects b) (sell_orders b) {} []
            (price_levels_sell b))"
  by (simp_all add: get_order_book_snapshot_def case_prod_beta)

lemma wf_get_order_book_snapshot:
  assumes "wf b" shows "wf (snd (get_order_book_snapshot b depth))"
proof -
  note w = wfD[OF assms]
  have "index_covers (snd (get_order_book_snapshot b depth))"
    using w(9) by (simp add: index_covers_def)
  with w show ?thesis
    by (simp add: wf_def ledger_ok_bucket_cong[OF bucket_snapshot_loop]
        ledger_covers_bucket_cong[OF bucket_snapshot_loop])
qed

subsection \<open>The effect of a successful cancel\<close>

lemma ledger_ok_other_price:
  assumes "ledger_ok bs objs os lv" "a \<in> set (bucket lv p)" "q \<noteq> p"
  shows "a \<notin> set (bucket lv q)"
  using ledger_okD[OF assms(1,2)] ledger_okD[OF assms(1), of a q] assms(3)
  by (auto simp: ref_ok_def)

lemma cancel_order_effect:
  assumes wf: "wf b" and o: "orders b oid = Some a"
  shows "\<exists>b'. cancel_order b oid = Inr (True, b') \<and> wf b' \<and> objects b' = objects b \<and>
           orders b' = (orders b)(oid := None) \<and>
           buy_orders b' = buy_orders b \<and> sell_orders b' = sell_orders b \<and>
           (\<forall>q. bucket (price_levels_buy b') q = remove1 a (bucket (price_levels_buy b) q)) \<and>
           (\<forall>q. bucket (price_levels_sell b') q = remove1 a (bucket (price_levels_sell b) q))"
proof (cases "side (objects b ! a) = ''buy''")
  case True
  note w = wfD[OF wf]
  from cancel_order_buy[OF wf o True] obtain d where
    rm: "level_remove (price_levels_buy b) (price (objects b ! a)) a = Inr d" and
    c: "cancel_order b oid =
          Inr (True, b\<lparr>price_levels_buy := d, orders := (orders b)(oid := None)\<rparr>)"
    by blast
  from rm have ain: "a \<in> set (bucket (price_levels_buy b) (price (objects b ! a)))"
    by (simp add: level_remove_Inr)
  have 1: "bucket d q = remove1 a (bucket (price_levels_buy b) q)" for q
    using ledger_ok_other_price[OF w(3) ain, of q]
    by (simp add: bucket_level_remove[OF rm] remove1_idem)
  have 2: "bucket (price_levels_sell b) q = remove1 a (bucket (price_levels_sell b) q)" for q
    using ledger_ok_absent_other_side[OF w(4), of a q] True by (simp add: remove1_idem)
  from c wf_cancel_buy[OF wf o True rm] 1 2 show ?thesis by simp
next
  case False
  note w = wfD[OF wf]
  from cancel_order_sell[OF wf o False] obtain d where
    rm: "level_remove (price_levels_sell b) (price (objects b ! a)) a = Inr d" and
    c: "cancel_order b oid =
          Inr (True, b\<lparr>price_levels_sell := d, orders := (orders b)(oid := None)\<rparr>)"
    by blast
  from rm have ain: "a \<in> set (bucket (price_levels_sell b) (price (objects b ! a)))"
    by (simp add: level_remove_Inr)
  have 1: "bucket d q = remove1 a (bucket (price_levels_sell b) q)" for q
    using ledger_ok_other_price[OF w(4) ain, of q]
    by (simp add: bucket_level_remove[OF rm] remove1_idem)
  have 2: "bucket (price_levels_buy b) q = remove1 a (bucket (price_levels_buy b) q)" for q
    using ledger_ok_absent_other_side[OF w(3), of a q] False by (simp add: remove1_idem)
  from c wf_cancel_sell[OF wf o False rm] 1 2 show ?thesis by simp
qed

subsection \<open>Fill and retire\<close>

lemma fill_fields [simp]:
  "objects (fill b a mq) =
     (objects b)[a := (objects b ! a)\<lparr>quantity := quantity (objects b ! a) - mq\<rparr>]"
  "orders (fill b a mq) = orders b"
  "buy_orders (fill b a mq) = buy_orders b"
  "sell_orders (fill b a mq) = sell_orders b"
  "price_levels_buy (fill b a mq) = price_levels_buy b"
  "price_levels_sell (fill b a mq) = price_levels_sell b"
  by (simp_all add: fill_def set_quantity_def)

lemma wf_fill: "wf b \<Longrightarrow> wf (fill b a mq)"
  by (simp add: fill_def wf_set_quantity)

lemma retire_effect:
  assumes wf: "wf b" and live: "orders b (order_id (objects b ! a)) = Some a"
  shows "\<exists>b'. retire b a = Inr b' \<and> wf b' \<and> objects b' = objects b \<and>
           (if quantity (objects b ! a) = 0
            then cancel_order b (order_id (objects b ! a)) = Inr (True, b') else b' = b) \<and>
           buy_orders b' = buy_orders b \<and> sell_orders b' = sell_orders b \<and>
           orders b' = (if quantity (objects b ! a) = 0
                        then (orders b)(order_id (objects b ! a) := None) else orders b) \<and>
           (\<forall>q. bucket (price_levels_buy b') q =
                  (if quantity (objects b ! a) = 0 then remove1 a (bucket (price_levels_buy b) q)
                   else bucket (price_levels_buy b) q)) \<and>
           (\<forall>q. bucket (price_levels_sell b') q =
                  (if quantity (objects b ! a) = 0 then remove1 a (bucket (price_levels_sell b) q)
                   else bucket (price_levels_sell b) q))"
proof (cases "quantity (objects b ! a) = 0")
  case True
  from cancel_order_effect[OF wf live] obtain b' where
    "cancel_order b (order_id (objects b ! a)) = Inr (True, b')" "wf b'"
    "objects b' = objects b" "orders b' = (orders b)(order_id (objects b ! a) := None)"
    "buy_orders b' = buy_orders b" "sell_orders b' = sell_orders b"
    "\<forall>q. bucket (price_levels_buy b') q = remove1 a (bucket (price_levels_buy b) q)"
    "\<forall>q. bucket (price_levels_sell b') q = remove1 a (bucket (price_levels_sell b) q)"
    by blast
  with True show ?thesis by (simp add: retire_def)
next
  case False
  with wf show ?thesis by (simp add: retire_def)
qed

subsection \<open>Settling the two front orders\<close>

lemma settle_effect:
  assumes wf: "wf b"
    and rb: "ref_ok True (objects b) (orders b) p1 buy"
    and rs: "ref_ok False (objects b) (orders b) p2 sell"
  shows "\<exists>b'. settle b buy sell =
             Inr (\<lparr>buy_order_id = order_id (objects b ! buy),
                   sell_order_id = order_id (objects b ! sell),
                   trade_price = price (objects b ! sell),
                   trade_quantity = min (quantity (objects b ! buy))
                                        (quantity (objects b ! sell))\<rparr>, b') \<and>
           wf b' \<and>
           objects b' =
             (objects b)
               [buy := (objects b ! buy)\<lparr>quantity := quantity (objects b ! buy) -
                    min (quantity (objects b ! buy)) (quantity (objects b ! sell))\<rparr>,
                sell := (objects b ! sell)\<lparr>quantity := quantity (objects b ! sell) -
                    min (quantity (objects b ! buy)) (quantity (objects b ! sell))\<rparr>] \<and>
           buy_orders b' = buy_orders b \<and> sell_orders b' = sell_orders b \<and>
           orders b' =
             (\<lambda>i. if (i = order_id (objects b ! buy) \<and>
                       quantity (objects b ! buy) \<le> quantity (objects b ! sell)) \<or>
                      (i = order_id (objects b ! sell) \<and>
                       quantity (objects b ! sell) \<le> quantity (objects b ! buy))
                   then None else orders b i) \<and>
           (\<forall>q. bucket (price_levels_buy b') q =
                  (if quantity (objects b ! buy) \<le> quantity (objects b ! sell)
                   then remove1 buy (bucket (price_levels_buy b) q)
                   else bucket (price_levels_buy b) q)) \<and>
           (\<forall>q. bucket (price_levels_sell b') q =
                  (if quantity (objects b ! sell) \<le> quantity (objects b ! buy)
                   then remove1 sell (bucket (price_levels_sell b) q)
                   else bucket (price_levels_sell b) q)) \<and>
           (\<exists>b5. (if quantity (objects b ! buy) \<le> quantity (objects b ! sell)
                  then cancel_order
                         (fill (fill b buy (min (quantity (objects b ! buy))
                                                (quantity (objects b ! sell))))
                            sell (min (quantity (objects b ! buy)) (quantity (objects b ! sell))))
                         (order_id (objects b ! buy)) = Inr (True, b5)
                  else b5 = fill (fill b buy (min (quantity (objects b ! buy))
                                                  (quantity (objects b ! sell))))
                              sell (min (quantity (objects b ! buy))
                                        (quantity (objects b ! sell)))) \<and>
                 (if quantity (objects b ! sell) \<le> quantity (objects b ! buy)
                  then cancel_order b5 (order_id (objects b ! sell)) = Inr (True, b')
                  else b' = b5))"
proof -
  let ?qb = "quantity (objects b ! buy)" and ?qs = "quantity (objects b ! sell)"
  let ?mq = "min ?qb ?qs"
  let ?idb = "order_id (objects b ! buy)" and ?ids = "order_id (objects b ! sell)"
  define b4 where "b4 = fill (fill b buy ?mq) sell ?mq"
  note w = wfD[OF wf]
  from rb rs have ne: "buy \<noteq> sell" by (auto simp: ref_ok_def)
  from rb have lb: "buy < length (objects b)" and ob: "orders b ?idb = Some buy"
    by (simp_all add: ref_ok_def)
  from rs have ls: "sell < length (objects b)" and os: "orders b ?ids = Some sell"
    by (simp_all add: ref_ok_def)
  from ob os ne have idne: "?idb \<noteq> ?ids" by auto
  have nb: "\<And>q. sell \<notin> set (bucket (price_levels_buy b) q)"
    using ledger_ok_absent_other_side[OF w(3), of sell] rs by (simp add: ref_ok_def)
  have ns: "\<And>q. buy \<notin> set (bucket (price_levels_sell b) q)"
    using ledger_ok_absent_other_side[OF w(4), of buy] rb by (simp add: ref_ok_def)
  have o4: "objects b4 =
      (objects b)[buy := (objects b ! buy)\<lparr>quantity := ?qb - ?mq\<rparr>,
                  sell := (objects b ! sell)\<lparr>quantity := ?qs - ?mq\<rparr>]"
    unfolding b4_def using ne by simp
  have f4: "orders b4 = orders b" "buy_orders b4 = buy_orders b"
    "sell_orders b4 = sell_orders b" "price_levels_buy b4 = price_levels_buy b"
    "price_levels_sell b4 = price_levels_sell b"
    unfolding b4_def by simp_all
  have q4: "quantity (objects b4 ! buy) = ?qb - ?mq" "quantity (objects b4 ! sell) = ?qs - ?mq"
    "order_id (objects b4 ! buy) = ?idb" "order_id (objects b4 ! sell) = ?ids"
    using ne lb ls by (simp_all add: o4)
  have wf4: "wf b4" unfolding b4_def by (intro wf_fill wf)
  have live4: "orders b4 (order_id (objects b4 ! buy)) = Some buy"
    using ob by (simp only: q4 f4)
  from retire_effect[OF wf4 live4] obtain b5 where
    r5: "retire b4 buy = Inr b5" and wf5: "wf b5" and o5: "objects b5 = objects b4"
    and c5: "if ?qb - ?mq = 0 then cancel_order b4 ?idb = Inr (True, b5) else b5 = b4"
    and h5: "buy_orders b5 = buy_orders b" "sell_orders b5 = sell_orders b"
    and m5: "orders b5 = (if ?qb - ?mq = 0 then (orders b)(?idb := None) else orders b)"
    and bb5: "\<And>q. bucket (price_levels_buy b5) q =
                (if ?qb - ?mq = 0 then remove1 buy (bucket (price_levels_buy b) q)
                 else bucket (price_levels_buy b) q)"
    and bs5: "\<And>q. bucket (price_levels_sell b5) q =
                (if ?qb - ?mq = 0 then remove1 buy (bucket (price_levels_sell b) q)
                 else bucket (price_levels_sell b) q)"
    unfolding q4 f4 by blast
  have live5: "orders b5 (order_id (objects b5 ! sell)) = Some sell"
    using os idne by (simp add: o5 q4 m5)
  from retire_effect[OF wf5 live5] obtain b6 where
    r6: "retire b5 sell = Inr b6" and wf6: "wf b6" and o6: "objects b6 = objects b4"
    and c6: "if ?qs - ?mq = 0 then cancel_order b5 ?ids = Inr (True, b6) else b6 = b5"
    and h6: "buy_orders b6 = buy_orders b" "sell_orders b6 = sell_orders b"
    and m6: "orders b6 = (if ?qs - ?mq = 0 then (orders b5)(?ids := None) else orders b5)"
    and bb6: "\<And>q. bucket (price_levels_buy b6) q =
                (if ?qs - ?mq = 0 then remove1 sell (bucket (price_levels_buy b5) q)
                 else bucket (price_levels_buy b5) q)"
    and bs6: "\<And>q. bucket (price_levels_sell b6) q =
                (if ?qs - ?mq = 0 then remove1 sell (bucket (price_levels_sell b5) q)
                 else bucket (price_levels_sell b5) q)"
    unfolding o5 q4 h5 by blast
  have zb: "?qb - ?mq = 0 \<longleftrightarrow> ?qb \<le> ?qs" and zs: "?qs - ?mq = 0 \<longleftrightarrow> ?qs \<le> ?qb"
    by (auto simp: min_def)
  have st: "settle b buy sell =
      Inr (\<lparr>buy_order_id = ?idb, sell_order_id = ?ids, trade_price = price (objects b ! sell),
            trade_quantity = ?mq\<rparr>, b6)"
    by (simp add: settle_def Let_def b4_def[symmetric] r5 r6)
  have m: "orders b6 =
      (\<lambda>i. if (i = ?idb \<and> ?qb \<le> ?qs) \<or> (i = ?ids \<and> ?qs \<le> ?qb) then None else orders b i)"
    unfolding m6 m5 zb zs by (auto simp: fun_eq_iff)
  have bb: "bucket (price_levels_buy b6) q =
      (if ?qb \<le> ?qs then remove1 buy (bucket (price_levels_buy b) q)
       else bucket (price_levels_buy b) q)" for q
  proof -
    have "sell \<notin> set (bucket (price_levels_buy b5) q)"
      using nb[of q] set_remove1_subset[of buy "bucket (price_levels_buy b) q"]
      by (auto simp: bb5)
    then have "remove1 sell (bucket (price_levels_buy b5) q) = bucket (price_levels_buy b5) q"
      by (rule remove1_idem)
    then have "bucket (price_levels_buy b6) q = bucket (price_levels_buy b5) q"
      unfolding bb6 by simp
    then show ?thesis unfolding bb5 zb .
  qed
  have bs: "bucket (price_levels_sell b6) q =
      (if ?qs \<le> ?qb then remove1 sell (bucket (price_levels_sell b) q)
       else bucket (price_levels_sell b) q)" for q
  proof -
    have "remove1 buy (bucket (price_levels_sell b) q) = bucket (price_levels_sell b) q"
      using ns[of q] by (rule remove1_idem)
    then have "bucket (price_levels_sell b5) q = bucket (price_levels_sell b) q"
      unfolding bs5 by simp
    then show ?thesis unfolding bs6 zs by simp
  qed
  have pth: "\<exists>b5. (if ?qb \<le> ?qs
                    then cancel_order (fill (fill b buy ?mq) sell ?mq) ?idb = Inr (True, b5)
                    else b5 = fill (fill b buy ?mq) sell ?mq) \<and>
                   (if ?qs \<le> ?qb then cancel_order b5 ?ids = Inr (True, b6) else b6 = b5)"
    using c5 c6 unfolding zb zs b4_def by (intro exI[of _ b5] conjI)
  show ?thesis
    by (intro exI[of _ b6] conjI allI st wf6 h6 m bb bs pth) (simp only: o6 o4)
qed

subsection \<open>One round of matching\<close>

lemma best_loop_idem:
  "best_loop os (snd (best_loop os h)) = best_loop os h"
  by (induction os h rule: best_loop.induct) auto

lemma fst_get_best_bid:
  "fst (get_best_bid b) = map_option uminus (fst (best_loop (orders b) (buy_orders b)))"
  by (simp add: get_best_bid_def case_prod_beta split: option.splits)

lemma fst_get_best_ask:
  "fst (get_best_ask b) = fst (best_loop (orders b) (sell_orders b))"
  by (simp add: get_best_ask_def case_prod_beta)

lemma get_best_ask_after_bid [simp]:
  "fst (get_best_ask (snd (get_best_bid b))) = fst (get_best_ask b)"
  by (simp add: fst_get_best_ask)

lemma get_best_bid_after_ask [simp]:
  "fst (get_best_bid (snd (get_best_ask b))) = fst (get_best_bid b)"
  by (simp add: fst_get_best_bid)

lemma quoted_fields [simp]:
  "objects (quoted b) = objects b"
  "orders (quoted b) = orders b"
  "price_levels_buy (quoted b) = price_levels_buy b"
  "price_levels_sell (quoted b) = price_levels_sell b"
  "buy_orders (quoted b) = snd (best_loop (orders b) (buy_orders b))"
  "sell_orders (quoted b) = snd (best_loop (orders b) (sell_orders b))"
  by (simp_all add: quoted_def)

lemma wf_quoted: "wf b \<Longrightarrow> wf (quoted b)"
  by (simp add: quoted_def wf_get_best_ask wf_get_best_bid)

lemma touched_fields [simp]:
  "objects (touched b x y) = objects b"
  "orders (touched b x y) = orders b"
  "buy_orders (touched b x y) = buy_orders b"
  "sell_orders (touched b x y) = sell_orders b"
  "bucket (price_levels_buy (touched b x y)) q = bucket (price_levels_buy b) q"
  "bucket (price_levels_sell (touched b x y)) q = bucket (price_levels_sell b) q"
  by (simp_all add: touched_def)

lemma wf_touched: assumes "wf b" shows "wf (touched b x y)"
proof -
  note w = wfD[OF assms]
  have "index_covers (touched b x y)" using w(9) by (simp add: index_covers_def)
  with w show ?thesis by (simp add: wf_def ledger_ok_def ledger_covers_def)
qed

lemma match_round_unfold:
  "match_round b =
     (case (fst (get_best_bid b), fst (get_best_ask b)) of
        (Some x, Some y) \<Rightarrow>
          if x < y then Inr (None, quoted b)
          else
            (case (bucket (price_levels_buy b) x, bucket (price_levels_sell b) y) of
               (buy # _, sell # _) \<Rightarrow>
                 (case settle (touched (quoted b) x y) buy sell of
                    Inl e \<Rightarrow> Inl e
                  | Inr (t, b') \<Rightarrow> Inr (Some t, b'))
             | _ \<Rightarrow> Inr (None, touched (quoted b) x y))
      | _ \<Rightarrow> Inr (None, quoted b))"
proof -
  have q: "snd (get_best_ask (snd (get_best_bid b))) = quoted b" by (simp add: quoted_def)
  have b: "fst (dd_get (price_levels_buy (quoted b)) x) = bucket (price_levels_buy b) x"
    "fst (dd_get (price_levels_sell (quoted b)) y) = bucket (price_levels_sell b) y" for x y
    by simp_all
  show ?thesis
    unfolding match_round_def Let_def case_prod_beta fst_conv snd_conv
      get_best_ask_after_bid q b touched_def[symmetric]
    by (simp split: option.splits list.splits)
qed

text \<open>A round that breaks changes neither the store, the id-map nor the lists.\<close>

lemma match_round_break:
  assumes "match_round b = Inr (None, b')"
  shows "objects b' = objects b \<and> orders b' = orders b \<and>
         (\<forall>q. bucket (price_levels_buy b') q = bucket (price_levels_buy b) q) \<and>
         (\<forall>q. bucket (price_levels_sell b') q = bucket (price_levels_sell b) q) \<and>
         buy_orders b' = snd (best_loop (orders b) (buy_orders b)) \<and>
         sell_orders b' = snd (best_loop (orders b) (sell_orders b))"
  using assms unfolding match_round_unfold
  by (auto split: option.splits if_splits list.splits sum.splits prod.splits)

lemma match_round_break_why:
  assumes "match_round b = Inr (None, b')"
  shows "(case (fst (get_best_bid b), fst (get_best_ask b)) of
            (Some x, Some y) \<Rightarrow>
               x < y \<or> bucket (price_levels_buy b) x = [] \<or> bucket (price_levels_sell b) y = []
          | _ \<Rightarrow> True)"
  using assms unfolding match_round_unfold
  by (auto split: option.splits if_splits list.splits sum.splits prod.splits)

text \<open>A round that trades: what it read and what it did, in terms of the book before.\<close>

lemma match_round_trade:
  assumes wf: "wf b" and m: "match_round b = Inr (Some t, b')"
  shows "\<exists>x y buy sell bs ss.
           fst (get_best_bid b) = Some x \<and> fst (get_best_ask b) = Some y \<and> \<not> x < y \<and>
           bucket (price_levels_buy b) x = buy # bs \<and>
           bucket (price_levels_sell b) y = sell # ss \<and>
           settle (touched (quoted b) x y) buy sell = Inr (t, b')"
  using m unfolding match_round_unfold
  by (auto split: option.splits if_splits list.splits sum.splits prod.splits)

lemma match_round_total:
  assumes wf: "wf b"
  shows "\<exists>r b'. match_round b = Inr (r, b') \<and> wf b' \<and>
           (case r of None \<Rightarrow> orders b' = orders b
            | Some t \<Rightarrow> card (dom (orders b')) < card (dom (orders b)))"
proof -
  have wq: "wf (quoted b)" by (rule wf_quoted[OF wf])
  show ?thesis
  proof (cases "\<exists>x y buy sell bs ss. fst (get_best_bid b) = Some x \<and>
                  fst (get_best_ask b) = Some y \<and> \<not> x < y \<and>
                  bucket (price_levels_buy b) x = buy # bs \<and>
                  bucket (price_levels_sell b) y = sell # ss")
    case True
    then obtain x y buy sell bs ss where h: "fst (get_best_bid b) = Some x"
      "fst (get_best_ask b) = Some y" "\<not> x < y" "bucket (price_levels_buy b) x = buy # bs"
      "bucket (price_levels_sell b) y = sell # ss" by blast
    let ?b3 = "touched (quoted b) x y"
    have w3: "wf ?b3" by (rule wf_touched[OF wq])
    note w = wfD[OF w3]
    have rb: "ref_ok True (objects ?b3) (orders ?b3) x buy"
      by (rule ledger_okD[OF w(3)]) (simp add: h)
    have rs: "ref_ok False (objects ?b3) (orders ?b3) y sell"
      by (rule ledger_okD[OF w(4)]) (simp add: h)
    from settle_effect[OF w3 rb rs] obtain t b' where
      s: "settle ?b3 buy sell = Inr (t, b')" and wf': "wf b'" and
      o: "orders b' =
             (\<lambda>i. if (i = order_id (objects ?b3 ! buy) \<and>
                       quantity (objects ?b3 ! buy) \<le> quantity (objects ?b3 ! sell)) \<or>
                      (i = order_id (objects ?b3 ! sell) \<and>
                       quantity (objects ?b3 ! sell) \<le> quantity (objects ?b3 ! buy))
                   then None else orders ?b3 i)"
      by blast
    from rb rs have live: "orders b (order_id (objects b ! buy)) = Some buy"
      "orders b (order_id (objects b ! sell)) = Some sell"
      by (simp_all add: ref_ok_def)
    have sub: "dom (orders b') \<subseteq> dom (orders b)"
      unfolding o by (auto split: if_splits)
    have "\<exists>i. i \<in> dom (orders b) \<and> i \<notin> dom (orders b')"
    proof (cases "quantity (objects b ! buy) \<le> quantity (objects b ! sell)")
      case True
      with live(1) show ?thesis unfolding o by (intro exI[of _ "order_id (objects b ! buy)"]) auto
    next
      case False
      then have "quantity (objects b ! sell) \<le> quantity (objects b ! buy)" by simp
      with live(2) show ?thesis unfolding o by (intro exI[of _ "order_id (objects b ! sell)"]) auto
    qed
    with sub have "dom (orders b') \<subset> dom (orders b)" by blast
    then have "card (dom (orders b')) < card (dom (orders b))"
      using wfD(1)[OF wf] by (rule psubset_card_mono[rotated])
    moreover have "match_round b = Inr (Some t, b')"
      unfolding match_round_unfold using h s by simp
    ultimately show ?thesis using wf' by simp
  next
    case False
    then have "match_round b = Inr (None, quoted b) \<or>
               (\<exists>x y. match_round b = Inr (None, touched (quoted b) x y))"
      unfolding match_round_unfold
      by (auto split: option.splits list.splits)
    then show ?thesis using wq wf_touched[OF wq] by auto
  qed
qed

subsection \<open>The matching loop returns\<close>

lemma match_loop_total:
  assumes "wf b"
  shows "\<exists>ms' b'. match_loop b ms = Some (Inr (ms', b')) \<and> wf b'"
  using assms
proof (induction "card (dom (orders b))" arbitrary: b ms rule: less_induct)
  case less
  from match_round_total[OF less.prems] obtain r b1 where
    r: "match_round b = Inr (r, b1)" and w1: "wf b1" and
    c: "case r of None \<Rightarrow> orders b1 = orders b
        | Some t \<Rightarrow> card (dom (orders b1)) < card (dom (orders b))"
    by blast
  show ?case
  proof (cases r)
    case None
    with r w1 show ?thesis by (subst match_loop.simps) simp
  next
    case (Some t)
    with c have "card (dom (orders b1)) < card (dom (orders b))" by simp
    from less.hyps[OF this w1, of "ms @ [t]"] obtain ms' b' where
      "match_loop b1 (ms @ [t]) = Some (Inr (ms', b'))" "wf b'" by blast
    with r Some show ?thesis by (subst match_loop.simps) simp
  qed
qed

lemma match_loop_induct [consumes 2, case_names break trade]:
  assumes wf: "wf b" and run: "match_loop b ms = Some (Inr (ms', b'))"
    and base: "\<And>b ms b'. wf b \<Longrightarrow> match_round b = Inr (None, b') \<Longrightarrow> P b ms ms b'"
    and step: "\<And>b ms t b1 ms' b'. wf b \<Longrightarrow> match_round b = Inr (Some t, b1) \<Longrightarrow> wf b1 \<Longrightarrow>
                 match_loop b1 (ms @ [t]) = Some (Inr (ms', b')) \<Longrightarrow>
                 P b1 (ms @ [t]) ms' b' \<Longrightarrow> P b ms ms' b'"
  shows "P b ms ms' b'"
  using wf run
proof (induction "card (dom (orders b))" arbitrary: b ms rule: less_induct)
  case less
  from match_round_total[OF less.prems(1)] obtain r b1 where
    r: "match_round b = Inr (r, b1)" and w1: "wf b1" and
    c: "case r of None \<Rightarrow> orders b1 = orders b
        | Some t \<Rightarrow> card (dom (orders b1)) < card (dom (orders b))"
    by blast
  show ?case
  proof (cases r)
    case None
    with r less.prems(2) have "ms' = ms" "b' = b1"
      by (subst (asm) match_loop.simps, simp)+
    with base[OF less.prems(1), of b1 ms] r None show ?thesis by simp
  next
    case (Some t)
    with c have lt: "card (dom (orders b1)) < card (dom (orders b))" by simp
    from r Some less.prems(2) have run1: "match_loop b1 (ms @ [t]) = Some (Inr (ms', b'))"
      by (subst (asm) match_loop.simps) simp
    from step[OF less.prems(1) _ w1 run1 less.hyps[OF lt w1 run1]] r Some
    show ?thesis by simp
  qed
qed

lemma wf_match_orders:
  assumes "wf b"
  shows "\<exists>ms b'. match_orders b = Some (Inr (ms, b')) \<and> wf b'"
  unfolding match_orders_def by (rule match_loop_total[OF assms])

subsection \<open>Every sequence of calls on the empty book returns\<close>

lemma wf_init: "wf init"
  by (simp add: wf_def init_def ids_ok_def ledger_ok_def ledger_covers_def index_covers_def
      bucket_def)

lemma step_total:
  assumes "wf b"
  shows "\<exists>out b'. step b x = Some (Inr (out, b')) \<and> wf b'"
proof (cases x)
  case (Add now oid sd p q)
  with wf_add_order[OF assms, of now oid sd p q] show ?thesis
    by (simp add: case_prod_beta)
next
  case (Cancel oid)
  with wf_cancel_order[OF assms, of oid] show ?thesis by auto
next
  case (Modify oid np nq)
  with wf_modify_order[OF assms, of oid np nq] show ?thesis by auto
next
  case Best_Bid
  with wf_get_best_bid[OF assms] show ?thesis by (simp add: case_prod_beta)
next
  case Best_Ask
  with wf_get_best_ask[OF assms] show ?thesis by (simp add: case_prod_beta)
next
  case Spread
  with wf_get_spread[OF assms] show ?thesis by (simp add: case_prod_beta)
next
  case (Snapshot depth)
  with wf_get_order_book_snapshot[OF assms, of depth] show ?thesis
    by (simp add: case_prod_beta)
next
  case Match
  with wf_match_orders[OF assms] show ?thesis by auto
qed

lemma exec_total:
  assumes "wf b"
  shows "\<exists>outs b'. exec b xs = Some (Inr (outs, b')) \<and> wf b'"
  using assms
proof (induction xs arbitrary: b)
  case Nil
  then show ?case by simp
next
  case (Cons x xs)
  from step_total[OF Cons.prems, of x] obtain out b1 where
    s: "step b x = Some (Inr (out, b1))" and w1: "wf b1" by blast
  from Cons.IH[OF w1] obtain outs b' where "exec b1 xs = Some (Inr (outs, b'))" "wf b'"
    by blast
  with s show ?case by simp
qed

lemma exec_wf:
  assumes "wf b" "exec b xs = Some (Inr (outs, b'))"
  shows "wf b'"
  using exec_total[OF assms(1), of xs] assms(2) by auto

lemma exec_append:
  "exec b (xs @ ys) =
     (case exec b xs of
        None \<Rightarrow> None
      | Some (Inl e) \<Rightarrow> Some (Inl e)
      | Some (Inr (outs, b')) \<Rightarrow>
          (case exec b' ys of
             None \<Rightarrow> None
           | Some (Inl e) \<Rightarrow> Some (Inl e)
           | Some (Inr (outs', b'')) \<Rightarrow> Some (Inr (outs @ outs', b''))))"
  by (induction xs arbitrary: b) (auto split: option.splits sum.splits prod.splits)

subsection \<open>Reachable books\<close>


lemma exec_final: "exec init xs = Some (Inr (replies xs, final xs))"
  using exec_total[OF wf_init, of xs] by (auto simp: replies_def final_def)

lemma wf_final: "wf (final xs)"
  using exec_wf[OF wf_init exec_final] .

lemma final_snoc:
  assumes "step (final xs) x = Some (Inr (out, b'))"
  shows "final (xs @ [x]) = b'"
proof -
  have "exec init (xs @ [x]) = Some (Inr (replies xs @ [out], b'))"
    using assms by (simp add: exec_append exec_final)
  then show ?thesis by (simp add: final_def)
qed


section \<open>After matching\<close>

lemma no_live_entry:
  assumes "fst (best_loop os h) = None" "(k, t, i) \<in> set h"
  shows "os i = None"
proof (rule ccontr)
  assume "os i \<noteq> None"
  from best_loop_keeps[of k t i h os, OF assms(2) this]
  have "snd (best_loop os h) \<noteq> []" by auto
  with assms(1) show False
    by (simp add: best_loop_fst best_loop_snd split: list.splits)
qed

lemma no_bid_no_buyers:
  assumes wf: "wf b" and nb: "fst (get_best_bid b) = None"
  shows "bucket (price_levels_buy b) q = []"
proof (rule ccontr)
  assume "bucket (price_levels_buy b) q \<noteq> []"
  then obtain a where a: "a \<in> set (bucket (price_levels_buy b) q)"
    by (cases "bucket (price_levels_buy b) q") auto
  note w = wfD[OF wf]
  from ledger_okD[OF w(3) a] have o: "orders b (order_id (objects b ! a)) = Some a"
    and sd: "side (objects b ! a) = ''buy''" by (simp_all add: ref_ok_def)
  from w(9) o sd have "(- price (objects b ! a), timestamp (objects b ! a),
      order_id (objects b ! a)) \<in> set (buy_orders b)"
    by (auto simp: index_covers_def)
  moreover from nb have "fst (best_loop (orders b) (buy_orders b)) = None"
    by (simp add: fst_get_best_bid)
  ultimately have "orders b (order_id (objects b ! a)) = None" by (rule no_live_entry[rotated])
  with o show False by simp
qed

lemma no_ask_no_sellers:
  assumes wf: "wf b" and nb: "fst (get_best_ask b) = None"
  shows "bucket (price_levels_sell b) q = []"
proof (rule ccontr)
  assume "bucket (price_levels_sell b) q \<noteq> []"
  then obtain a where a: "a \<in> set (bucket (price_levels_sell b) q)"
    by (cases "bucket (price_levels_sell b) q") auto
  note w = wfD[OF wf]
  from ledger_okD[OF w(4) a] have o: "orders b (order_id (objects b ! a)) = Some a"
    and sd: "side (objects b ! a) \<noteq> ''buy''" by (simp_all add: ref_ok_def)
  from w(9) o sd have "(price (objects b ! a), timestamp (objects b ! a),
      order_id (objects b ! a)) \<in> set (sell_orders b)"
    by (auto simp: index_covers_def)
  moreover from nb have "fst (best_loop (orders b) (sell_orders b)) = None"
    by (simp add: fst_get_best_ask)
  ultimately have "orders b (order_id (objects b ! a)) = None" by (rule no_live_entry[rotated])
  with o show False by simp
qed

text \<open>The queries give the same answers after a round that breaks as before it.\<close>

lemma match_round_break_quotes:
  assumes "match_round b = Inr (None, b')"
  shows "fst (get_best_bid b') = fst (get_best_bid b)"
    and "fst (get_best_ask b') = fst (get_best_ask b)"
  using match_round_break[OF assms]
  by (simp_all add: fst_get_best_bid fst_get_best_ask best_loop_idem)

lemma match_round_break_settled:
  assumes wf: "wf b" and m: "match_round b = Inr (None, b')"
  shows "settled b'"
proof -
  from match_round_total[OF wf] m have w': "wf b'" by auto
  note q = match_round_break_quotes[OF m]
  note e = match_round_break[OF m]
  show ?thesis
  proof (cases "fst (get_best_bid b')")
    case None
    from no_bid_no_buyers[OF w' this] show ?thesis by (simp add: settled_def)
  next
    case (Some x)
    show ?thesis
    proof (cases "fst (get_best_ask b')")
      case None
      from no_ask_no_sellers[OF w' this] show ?thesis by (simp add: settled_def)
    next
      case (Some y)
      with \<open>fst (get_best_bid b') = Some x\<close> match_round_break_why[OF m] e
      show ?thesis by (simp add: settled_def q)
    qed
  qed
qed

lemma match_loop_settled:
  assumes "wf b" "match_loop b ms = Some (Inr (ms', b'))"
  shows "settled b'"
  using assms
proof (induction rule: match_loop_induct)
  case (break b ms b')
  then show ?case by (rule match_round_break_settled)
next
  case (trade b ms t b1 ms' b')
  then show ?case by simp
qed


text \<open>
  Claim C1, as the code has it. On every book reached from the empty one,
  \<open>match_orders\<close> returns, and in the book it leaves either the best bid is below the
  best ask, or the price that \<open>get_best_bid\<close> (or \<open>get_best_ask\<close>) reports has no order
  under it in the ledger of that side, or one side has no resting order at all. The
  second case is the stale price of an entry whose order was since amended in price (or
  whose id was cancelled and added again): the loop stops on the empty list, through its
  \<^verbatim>\<open>if not buy_orders_at_price or not sell_orders_at_price: break\<close>.
\<close>

theorem match_orders_leaves_no_matchable_cross:
  "\<exists>ms b'. match_orders (final xs) = Some (Inr (ms, b')) \<and>
     ((\<exists>x y. fst (get_best_bid b') = Some x \<and> fst (get_best_ask b') = Some y \<and>
             (x < y \<or> bucket (price_levels_buy b') x = [] \<or>
              bucket (price_levels_sell b') y = [])) \<or>
      (\<forall>q. bucket (price_levels_buy b') q = []) \<or>
      (\<forall>q. bucket (price_levels_sell b') q = []))"
proof -
  from wf_match_orders[OF wf_final, of xs] obtain ms b' where
    m: "match_orders (final xs) = Some (Inr (ms, b'))" by blast
  then have "settled b'"
    unfolding match_orders_def by (rule match_loop_settled[OF wf_final])
  with m show ?thesis unfolding settled_def by blast
qed

text \<open>
  The claim as stated fails: buy A at 100 is amended to 90, sell S rests at 95. After
  \<open>match_orders\<close> has returned (with no trade) the best bid is still reported as 100, the
  best ask as 95, and both orders rest in the book.
\<close>

theorem cross_persists_counterexample:
  "replies [Add 1 ''A'' ''buy'' 100 10, Modify ''A'' (Some 90) None, Add 2 ''S'' ''sell'' 95 5,
            Match, Best_Bid, Best_Ask] =
     [Ack True, Ack True, Ack True, Trades [], Quote (Some 100), Quote (Some 95)] \<and>
   \<not> (100 :: rat) < 95 \<and>
   orders (final [Add 1 ''A'' ''buy'' 100 10, Modify ''A'' (Some 90) None,
            Add 2 ''S'' ''sell'' 95 5, Match]) ''A'' = Some 0 \<and>
   price_levels_buy (final [Add 1 ''A'' ''buy'' 100 10, Modify ''A'' (Some 90) None,
            Add 2 ''S'' ''sell'' 95 5, Match]) 90 = Some [0] \<and>
   orders (final [Add 1 ''A'' ''buy'' 100 10, Modify ''A'' (Some 90) None,
            Add 2 ''S'' ''sell'' 95 5, Match]) ''S'' = Some 1 \<and>
   price_levels_sell (final [Add 1 ''A'' ''buy'' 100 10, Modify ''A'' (Some 90) None,
            Add 2 ''S'' ''sell'' 95 5, Match]) 95 = Some [1]"
  by (simp add: replies_def final_def eval_defs match_loop.simps)

section \<open>Empty price levels\<close>

text \<open>
  Claim C4, at a failing input. \<open>cancel_order\<close> and \<open>modify_order\<close> delete a price level
  that they empty, but the reads \<^verbatim>\<open>self.price_levels_buy[price]\<close> of the snapshot and of
  the matching loop go through the \<^verbatim>\<open>defaultdict\<close>: after buy A at 100 is amended to 99,
  a snapshot reads the level 100 of the stale entry, reports it with quantity 0 and
  leaves the key 100 in the buy ledger with the empty list.
\<close>

theorem snapshot_creates_empty_level:
  "replies [Add 1 ''A'' ''buy'' 100 10, Modify ''A'' (Some 99) None, Snapshot 5] =
     [Ack True, Ack True, Levels [(100, 0), (99, 10)] []] \<and>
   price_levels_buy (final [Add 1 ''A'' ''buy'' 100 10, Modify ''A'' (Some 99) None]) 100 = None \<and>
   price_levels_buy (final [Add 1 ''A'' ''buy'' 100 10, Modify ''A'' (Some 99) None, Snapshot 5])
     100 = Some []"
  by (simp add: replies_def final_def eval_defs match_loop.simps)

section \<open>One trade\<close>

lemma match_round_trade_facts:
  assumes m: "match_round (final xs) = Inr (Some t, b')"
  shows "\<exists>x y buy bs sell ss b5.
           fst (get_best_bid (final xs)) = Some x \<and> fst (get_best_ask (final xs)) = Some y \<and>
           bucket (price_levels_buy (final xs)) x = buy # bs \<and>
           bucket (price_levels_sell (final xs)) y = sell # ss \<and>
           t = \<lparr>buy_order_id = order_id (objects (final xs) ! buy),
                sell_order_id = order_id (objects (final xs) ! sell),
                trade_price = price (objects (final xs) ! sell),
                trade_quantity = min (quantity (objects (final xs) ! buy))
                                     (quantity (objects (final xs) ! sell))\<rparr> \<and>
           trade_price t = y \<and>
           objects b' =
             (objects (final xs))
               [buy := (objects (final xs) ! buy)
                  \<lparr>quantity := quantity (objects (final xs) ! buy) - trade_quantity t\<rparr>,
                sell := (objects (final xs) ! sell)
                  \<lparr>quantity := quantity (objects (final xs) ! sell) - trade_quantity t\<rparr>] \<and>
           quantity (objects b' ! buy) =
             quantity (objects (final xs) ! buy) - trade_quantity t \<and>
           quantity (objects b' ! sell) =
             quantity (objects (final xs) ! sell) - trade_quantity t \<and>
           (if quantity (objects b' ! buy) = 0
            then cancel_order
                   (fill (fill (touched (quoted (final xs)) x y) buy (trade_quantity t))
                      sell (trade_quantity t))
                   (buy_order_id t) = Inr (True, b5) \<and>
                 orders b' (buy_order_id t) = None \<and>
                 (\<forall>q. bucket (price_levels_buy b') q =
                        remove1 buy (bucket (price_levels_buy (final xs)) q))
            else b5 = fill (fill (touched (quoted (final xs)) x y) buy (trade_quantity t))
                        sell (trade_quantity t) \<and>
                 orders b' (buy_order_id t) = Some buy \<and>
                 (\<forall>q. bucket (price_levels_buy b') q = bucket (price_levels_buy (final xs)) q)) \<and>
           (if quantity (objects b' ! sell) = 0
            then cancel_order b5 (sell_order_id t) = Inr (True, b') \<and>
                 orders b' (sell_order_id t) = None \<and>
                 (\<forall>q. bucket (price_levels_sell b') q =
                        remove1 sell (bucket (price_levels_sell (final xs)) q))
            else b' = b5 \<and>
                 orders b' (sell_order_id t) = Some sell \<and>
                 (\<forall>q. bucket (price_levels_sell b') q =
                        bucket (price_levels_sell (final xs)) q))"
proof -
  let ?b = "final xs"
  have wf: "wf ?b" by (rule wf_final)
  from match_round_trade[OF wf m] obtain x y buy sell bs ss where
    h: "fst (get_best_bid ?b) = Some x" "fst (get_best_ask ?b) = Some y"
       "bucket (price_levels_buy ?b) x = buy # bs" "bucket (price_levels_sell ?b) y = sell # ss"
    and s: "settle (touched (quoted ?b) x y) buy sell = Inr (t, b')"
    by blast
  let ?b3 = "touched (quoted ?b) x y"
  let ?qb = "quantity (objects ?b ! buy)" and ?qs = "quantity (objects ?b ! sell)"
  let ?mq = "min ?qb ?qs"
  have w3: "wf ?b3" by (intro wf_touched wf_quoted wf)
  note w = wfD[OF w3]
  have rb: "ref_ok True (objects ?b3) (orders ?b3) x buy"
    by (rule ledger_okD[OF w(3)]) (simp add: h)
  have rs: "ref_ok False (objects ?b3) (orders ?b3) y sell"
    by (rule ledger_okD[OF w(4)]) (simp add: h)
  from rb rs have ne: "buy \<noteq> sell" and lb: "buy < length (objects ?b)"
    and ls: "sell < length (objects ?b)" and py: "price (objects ?b ! sell) = y"
    and ob: "orders ?b (order_id (objects ?b ! buy)) = Some buy"
    and os: "orders ?b (order_id (objects ?b ! sell)) = Some sell"
    by (auto simp: ref_ok_def)
  from ob os ne have idne: "order_id (objects ?b ! buy) \<noteq> order_id (objects ?b ! sell)"
    by auto
  from settle_effect[OF w3 rb rs] s obtain b5 where
    t: "t = \<lparr>buy_order_id = order_id (objects ?b ! buy),
             sell_order_id = order_id (objects ?b ! sell),
             trade_price = price (objects ?b ! sell), trade_quantity = ?mq\<rparr>"
    and o: "objects b' = (objects ?b)[buy := (objects ?b ! buy)\<lparr>quantity := ?qb - ?mq\<rparr>,
                                       sell := (objects ?b ! sell)\<lparr>quantity := ?qs - ?mq\<rparr>]"
    and m': "orders b' =
             (\<lambda>i. if (i = order_id (objects ?b ! buy) \<and> ?qb \<le> ?qs) \<or>
                      (i = order_id (objects ?b ! sell) \<and> ?qs \<le> ?qb)
                   then None else orders ?b i)"
    and bb: "\<And>q. bucket (price_levels_buy b') q =
                  (if ?qb \<le> ?qs then remove1 buy (bucket (price_levels_buy ?b) q)
                   else bucket (price_levels_buy ?b) q)"
    and bs: "\<And>q. bucket (price_levels_sell b') q =
                  (if ?qs \<le> ?qb then remove1 sell (bucket (price_levels_sell ?b) q)
                   else bucket (price_levels_sell ?b) q)"
    and c5: "if ?qb \<le> ?qs
             then cancel_order (fill (fill ?b3 buy ?mq) sell ?mq) (order_id (objects ?b ! buy))
                    = Inr (True, b5)
             else b5 = fill (fill ?b3 buy ?mq) sell ?mq"
    and c6: "if ?qs \<le> ?qb then cancel_order b5 (order_id (objects ?b ! sell)) = Inr (True, b')
             else b' = b5"
    by (simp only: touched_fields quoted_fields) blast
  have tq: "trade_quantity t = ?mq" "buy_order_id t = order_id (objects ?b ! buy)"
    "sell_order_id t = order_id (objects ?b ! sell)" "trade_price t = y"
    by (simp_all add: t py)
  have qb': "quantity (objects b' ! buy) = ?qb - ?mq" using ne lb by (simp add: o)
  have qs': "quantity (objects b' ! sell) = ?qs - ?mq" using ne ls by (simp add: o)
  have zb: "?qb - ?mq = 0 \<longleftrightarrow> ?qb \<le> ?qs" and zs: "?qs - ?mq = 0 \<longleftrightarrow> ?qs \<le> ?qb"
    by (auto simp: min_def)
  have mb: "orders b' (order_id (objects ?b ! buy)) = (if ?qb \<le> ?qs then None else Some buy)"
    using idne ob by (simp add: m')
  have ms: "orders b' (order_id (objects ?b ! sell)) = (if ?qs \<le> ?qb then None else Some sell)"
    using idne os by (auto simp: m')
  have buy_part:
    "if quantity (objects b' ! buy) = 0
     then cancel_order (fill (fill ?b3 buy (trade_quantity t)) sell (trade_quantity t))
            (buy_order_id t) = Inr (True, b5) \<and>
          orders b' (buy_order_id t) = None \<and>
          (\<forall>q. bucket (price_levels_buy b') q = remove1 buy (bucket (price_levels_buy ?b) q))
     else b5 = fill (fill ?b3 buy (trade_quantity t)) sell (trade_quantity t) \<and>
          orders b' (buy_order_id t) = Some buy \<and>
          (\<forall>q. bucket (price_levels_buy b') q = bucket (price_levels_buy ?b) q)"
    unfolding tq qb' zb using c5 mb bb by (cases "?qb \<le> ?qs") simp_all
  have sell_part:
    "if quantity (objects b' ! sell) = 0
     then cancel_order b5 (sell_order_id t) = Inr (True, b') \<and>
          orders b' (sell_order_id t) = None \<and>
          (\<forall>q. bucket (price_levels_sell b') q = remove1 sell (bucket (price_levels_sell ?b) q))
     else b' = b5 \<and>
          orders b' (sell_order_id t) = Some sell \<and>
          (\<forall>q. bucket (price_levels_sell b') q = bucket (price_levels_sell ?b) q)"
    unfolding tq qs' zs using c6 ms bs by (cases "?qs \<le> ?qb") simp_all
  have o': "objects b' =
      (objects ?b)[buy := (objects ?b ! buy)\<lparr>quantity := ?qb - trade_quantity t\<rparr>,
                   sell := (objects ?b ! sell)\<lparr>quantity := ?qs - trade_quantity t\<rparr>]"
    unfolding tq by (rule o)
  have qb'': "quantity (objects b' ! buy) = ?qb - trade_quantity t" unfolding tq by (rule qb')
  have qs'': "quantity (objects b' ! sell) = ?qs - trade_quantity t" unfolding tq by (rule qs')
  show ?thesis
    by (intro exI[of _ x] exI[of _ y] exI[of _ buy] exI[of _ bs] exI[of _ sell] exI[of _ ss]
        exI[of _ b5] conjI h t tq(4) o' qb'' qs'' buy_part sell_part)
qed


text \<open>
  Claim C2. A round of the matching loop that trades, on a book reached from the empty
  one: the two orders are the heads of the lists under the best bid and the best ask;
  the trade carries their two ids, the price of the sell order (which is the best ask)
  and the minimum of their two quantities; both quantities are decremented by the trade
  quantity and no other object is written; and an order is removed exactly when its
  quantity has reached zero, by the call of \<open>cancel_order\<close> on its id, which succeeds:
  its id leaves the id-map and it leaves its list.
\<close>

theorem match_round_trade_effect:
  assumes m: "match_round (final xs) = Inr (Some t, b')"
  shows "\<exists>x y buy bs sell ss b5.
           fst (get_best_bid (final xs)) = Some x \<and> fst (get_best_ask (final xs)) = Some y \<and>
           bucket (price_levels_buy (final xs)) x = buy # bs \<and>
           bucket (price_levels_sell (final xs)) y = sell # ss \<and>
           t = \<lparr>buy_order_id = order_id (objects (final xs) ! buy),
                sell_order_id = order_id (objects (final xs) ! sell),
                trade_price = price (objects (final xs) ! sell),
                trade_quantity = min (quantity (objects (final xs) ! buy))
                                     (quantity (objects (final xs) ! sell))\<rparr> \<and>
           trade_price t = y \<and>
           objects b' =
             (objects (final xs))
               [buy := (objects (final xs) ! buy)
                  \<lparr>quantity := quantity (objects (final xs) ! buy) - trade_quantity t\<rparr>,
                sell := (objects (final xs) ! sell)
                  \<lparr>quantity := quantity (objects (final xs) ! sell) - trade_quantity t\<rparr>] \<and>
           quantity (objects b' ! buy) =
             quantity (objects (final xs) ! buy) - trade_quantity t \<and>
           quantity (objects b' ! sell) =
             quantity (objects (final xs) ! sell) - trade_quantity t \<and>
           (if quantity (objects b' ! buy) = 0
            then cancel_order
                   (fill (fill (touched (quoted (final xs)) x y) buy (trade_quantity t))
                      sell (trade_quantity t))
                   (buy_order_id t) = Inr (True, b5) \<and>
                 orders b' (buy_order_id t) = None \<and>
                 (\<forall>q. bucket (price_levels_buy b') q =
                        remove1 buy (bucket (price_levels_buy (final xs)) q))
            else b5 = fill (fill (touched (quoted (final xs)) x y) buy (trade_quantity t))
                        sell (trade_quantity t) \<and>
                 orders b' (buy_order_id t) = Some buy \<and>
                 (\<forall>q. bucket (price_levels_buy b') q = bucket (price_levels_buy (final xs)) q)) \<and>
           (if quantity (objects b' ! sell) = 0
            then cancel_order b5 (sell_order_id t) = Inr (True, b') \<and>
                 orders b' (sell_order_id t) = None \<and>
                 (\<forall>q. bucket (price_levels_sell b') q =
                        remove1 sell (bucket (price_levels_sell (final xs)) q))
            else b' = b5 \<and>
                 orders b' (sell_order_id t) = Some sell \<and>
                 (\<forall>q. bucket (price_levels_sell b') q =
                        bucket (price_levels_sell (final xs)) q))"
  by (rule match_round_trade_facts[OF m])

theorem match_round_trade_effect_witness:
  "\<exists>b' x y buy bs sell ss.
     match_round (final [Add 1 ''buy1'' ''buy'' 100 10, Add 2 ''buy2'' ''buy'' (199 / 2) 5,
                         Add 3 ''sell1'' ''sell'' 102 12, Add 4 ''buy3'' ''buy'' 103 6]) =
       Inr (Some \<lparr>buy_order_id = ''buy3'', sell_order_id = ''sell1'', trade_price = 102,
                  trade_quantity = 6\<rparr>, b') \<and>
     fst (get_best_bid (final [Add 1 ''buy1'' ''buy'' 100 10, Add 2 ''buy2'' ''buy'' (199 / 2) 5,
                         Add 3 ''sell1'' ''sell'' 102 12, Add 4 ''buy3'' ''buy'' 103 6])) = Some x \<and>
     fst (get_best_ask (final [Add 1 ''buy1'' ''buy'' 100 10, Add 2 ''buy2'' ''buy'' (199 / 2) 5,
                         Add 3 ''sell1'' ''sell'' 102 12, Add 4 ''buy3'' ''buy'' 103 6])) = Some y \<and>
     bucket (price_levels_buy (final [Add 1 ''buy1'' ''buy'' 100 10,
                         Add 2 ''buy2'' ''buy'' (199 / 2) 5,
                         Add 3 ''sell1'' ''sell'' 102 12, Add 4 ''buy3'' ''buy'' 103 6])) x
       = buy # bs \<and>
     bucket (price_levels_sell (final [Add 1 ''buy1'' ''buy'' 100 10,
                         Add 2 ''buy2'' ''buy'' (199 / 2) 5,
                         Add 3 ''sell1'' ''sell'' 102 12, Add 4 ''buy3'' ''buy'' 103 6])) y
       = sell # ss \<and>
     y = 102 \<and>
     quantity (objects b' ! buy) =
       quantity (objects (final [Add 1 ''buy1'' ''buy'' 100 10, Add 2 ''buy2'' ''buy'' (199 / 2) 5,
                         Add 3 ''sell1'' ''sell'' 102 12, Add 4 ''buy3'' ''buy'' 103 6]) ! buy) - 6 \<and>
     quantity (objects b' ! sell) =
       quantity (objects (final [Add 1 ''buy1'' ''buy'' 100 10, Add 2 ''buy2'' ''buy'' (199 / 2) 5,
                         Add 3 ''sell1'' ''sell'' 102 12, Add 4 ''buy3'' ''buy'' 103 6]) ! sell) - 6"
proof -
  let ?xs = "[Add 1 ''buy1'' ''buy'' 100 10, Add 2 ''buy2'' ''buy'' (199 / 2) 5,
              Add 3 ''sell1'' ''sell'' 102 12, Add 4 ''buy3'' ''buy'' 103 6]"
  let ?t = "\<lparr>buy_order_id = ''buy3'', sell_order_id = ''sell1'', trade_price = 102,
             trade_quantity = 6\<rparr>"
  have "\<exists>b'. match_round (final ?xs) = Inr (Some ?t, b')"
    by (simp add: final_def eval_defs)
  then obtain b' where m: "match_round (final ?xs) = Inr (Some ?t, b')" by blast
  from match_round_trade_effect[OF m] obtain x y buy bs sell ss where
    "fst (get_best_bid (final ?xs)) = Some x" "fst (get_best_ask (final ?xs)) = Some y"
    "bucket (price_levels_buy (final ?xs)) x = buy # bs"
    "bucket (price_levels_sell (final ?xs)) y = sell # ss"
    "trade_price ?t = y"
    "quantity (objects b' ! buy) = quantity (objects (final ?xs) ! buy) - trade_quantity ?t"
    "quantity (objects b' ! sell) = quantity (objects (final ?xs) ! sell) - trade_quantity ?t"
    by blast
  with m show ?thesis by (intro exI[of _ b'] exI[of _ x] exI[of _ y] exI[of _ buy] exI[of _ bs]
        exI[of _ sell] exI[of _ ss]) simp
qed

section \<open>Amendments\<close>

lemma bucket_level_remove_all:
  assumes ok: "ledger_ok bs objs os lv" and rm: "level_remove lv p a = Inr d"
  shows "bucket d q = remove1 a (bucket lv q)"
proof -
  from rm have ain: "a \<in> set (bucket lv p)" by (simp add: level_remove_Inr)
  show ?thesis
    using ledger_ok_other_price[OF ok ain, of q]
    by (simp add: bucket_level_remove[OF rm] remove1_idem)
qed

lemma level_append_other: "q \<noteq> p \<Longrightarrow> level_append lv p a q = lv q"
  by (simp add: level_append_def dd_get_def split: option.splits)

lemma level_remove_key:
  assumes "level_remove lv p a = Inr d"
  shows "d p = (if remove1 a (bucket lv p) = [] then None else Some (remove1 a (bucket lv p)))"
  using assms by (simp add: level_remove_Inr)

lemma modify_order_quantity_only:
  "orders b oid = Some a \<Longrightarrow>
     modify_order b oid None (Some q) =
       Inr (True, b\<lparr>objects := (objects b)[a := (objects b ! a)\<lparr>quantity := q\<rparr>]\<rparr>)"
  by (simp add: modify_order_def set_quantity_def)

lemma modify_order_price:
  assumes wf: "wf b" and o: "orders b oid = Some a"
  shows "\<exists>b'. modify_order b oid (Some np) nq = Inr (True, b') \<and> orders b' = orders b \<and>
           price (objects b' ! a) = np \<and>
           quantity (objects b' ! a) =
             (case nq of None \<Rightarrow> quantity (objects b ! a) | Some q \<Rightarrow> q) \<and>
           (if side (objects b ! a) = ''buy''
            then bucket (price_levels_buy b') np =
                   remove1 a (bucket (price_levels_buy b) np) @ [a] \<and>
                 (\<forall>q. q \<noteq> np \<longrightarrow>
                    bucket (price_levels_buy b') q = remove1 a (bucket (price_levels_buy b) q)) \<and>
                 (price (objects b ! a) \<noteq> np \<longrightarrow>
                    price_levels_buy b' (price (objects b ! a)) =
                      (if remove1 a (bucket (price_levels_buy b) (price (objects b ! a))) = []
                       then None
                       else Some (remove1 a
                              (bucket (price_levels_buy b) (price (objects b ! a)))))) \<and>
                 price_levels_sell b' = price_levels_sell b \<and>
                 buy_orders b' =
                   heappush (buy_orders b) (- np, timestamp (objects b ! a), oid) \<and>
                 sell_orders b' = sell_orders b
            else bucket (price_levels_sell b') np =
                   remove1 a (bucket (price_levels_sell b) np) @ [a] \<and>
                 (\<forall>q. q \<noteq> np \<longrightarrow>
                    bucket (price_levels_sell b') q =
                      remove1 a (bucket (price_levels_sell b) q)) \<and>
                 (price (objects b ! a) \<noteq> np \<longrightarrow>
                    price_levels_sell b' (price (objects b ! a)) =
                      (if remove1 a (bucket (price_levels_sell b) (price (objects b ! a))) = []
                       then None
                       else Some (remove1 a
                              (bucket (price_levels_sell b) (price (objects b ! a)))))) \<and>
                 price_levels_buy b' = price_levels_buy b \<and>
                 sell_orders b' =
                   heappush (sell_orders b) (np, timestamp (objects b ! a), oid) \<and>
                 buy_orders b' = buy_orders b)"
proof -
  note w = wfD[OF wf]
  from w(2) o have a: "a < length (objects b)" by (simp add: ids_ok_def)
  let ?objs = "(objects b)[a := (objects b ! a)\<lparr>price := np\<rparr>]"
  let ?old = "price (objects b ! a)"
  have fin: "\<And>b1. objects b1 = ?objs \<Longrightarrow>
      price (objects (case nq of None \<Rightarrow> b1 | Some q \<Rightarrow> set_quantity b1 a q) ! a) = np \<and>
      quantity (objects (case nq of None \<Rightarrow> b1 | Some q \<Rightarrow> set_quantity b1 a q) ! a) =
        (case nq of None \<Rightarrow> quantity (objects b ! a) | Some q \<Rightarrow> q)"
    using a by (cases nq) (simp_all add: set_quantity_def)
  have same: "\<And>b1. orders (case nq of None \<Rightarrow> b1 | Some q \<Rightarrow> set_quantity b1 a q) = orders b1 \<and>
      price_levels_buy (case nq of None \<Rightarrow> b1 | Some q \<Rightarrow> set_quantity b1 a q)
        = price_levels_buy b1 \<and>
      price_levels_sell (case nq of None \<Rightarrow> b1 | Some q \<Rightarrow> set_quantity b1 a q)
        = price_levels_sell b1 \<and>
      buy_orders (case nq of None \<Rightarrow> b1 | Some q \<Rightarrow> set_quantity b1 a q) = buy_orders b1 \<and>
      sell_orders (case nq of None \<Rightarrow> b1 | Some q \<Rightarrow> set_quantity b1 a q) = sell_orders b1"
    by (cases nq) (simp_all add: set_quantity_def)
  show ?thesis
  proof (cases "side (objects b ! a) = ''buy''")
    case True
    from reprice_buy[OF wf o True, of np] obtain d where
      rm: "level_remove (price_levels_buy b) ?old a = Inr d" and
      rp: "reprice b oid a np =
             Inr (b\<lparr>objects := ?objs, price_levels_buy := level_append d np a,
                    buy_orders := heappush (buy_orders b) (- np, timestamp (objects b ! a), oid)\<rparr>)"
      by blast
    let ?b1 = "b\<lparr>objects := ?objs, price_levels_buy := level_append d np a,
                 buy_orders := heappush (buy_orders b) (- np, timestamp (objects b ! a), oid)\<rparr>"
    let ?b' = "case nq of None \<Rightarrow> ?b1 | Some q \<Rightarrow> set_quantity ?b1 a q"
    have m: "modify_order b oid (Some np) nq = Inr (True, ?b')"
      using o rp by (simp add: modify_order_def)
    have bd: "\<And>q. bucket d q = remove1 a (bucket (price_levels_buy b) q)"
      by (rule bucket_level_remove_all[OF w(3) rm])
    have k: "?old \<noteq> np \<Longrightarrow> level_append d np a ?old =
        (if remove1 a (bucket (price_levels_buy b) ?old) = [] then None
         else Some (remove1 a (bucket (price_levels_buy b) ?old)))"
      using level_remove_key[OF rm] by (simp add: level_append_other)
    show ?thesis
      using m True fin[of ?b1] same[of ?b1] k
      by (intro exI[of _ ?b']) (simp add: bucket_level_append bd)
  next
    case False
    from reprice_sell[OF wf o False, of np] obtain d where
      rm: "level_remove (price_levels_sell b) ?old a = Inr d" and
      rp: "reprice b oid a np =
             Inr (b\<lparr>objects := ?objs, price_levels_sell := level_append d np a,
                    sell_orders := heappush (sell_orders b) (np, timestamp (objects b ! a), oid)\<rparr>)"
      by blast
    let ?b1 = "b\<lparr>objects := ?objs, price_levels_sell := level_append d np a,
                 sell_orders := heappush (sell_orders b) (np, timestamp (objects b ! a), oid)\<rparr>"
    let ?b' = "case nq of None \<Rightarrow> ?b1 | Some q \<Rightarrow> set_quantity ?b1 a q"
    have m: "modify_order b oid (Some np) nq = Inr (True, ?b')"
      using o rp by (simp add: modify_order_def)
    have bd: "\<And>q. bucket d q = remove1 a (bucket (price_levels_sell b) q)"
      by (rule bucket_level_remove_all[OF w(4) rm])
    have k: "?old \<noteq> np \<Longrightarrow> level_append d np a ?old =
        (if remove1 a (bucket (price_levels_sell b) ?old) = [] then None
         else Some (remove1 a (bucket (price_levels_sell b) ?old)))"
      using level_remove_key[OF rm] by (simp add: level_append_other)
    show ?thesis
      using m False fin[of ?b1] same[of ?b1] k
      by (intro exI[of _ ?b']) (simp add: bucket_level_append bd)
  qed
qed


text \<open>
  Claim C6. For an order that rests in a book reached from the empty one: an amendment
  with a new quantity only returns the same book with the quantity of that one object
  replaced, so both ledgers, both heaps and the position of the order in its list are
  as before; an amendment with a new price removes the order from its list (the other
  orders keep their relative order, and the old price level is deleted when this empties
  it) and appends it at the back of the list of the new price on the same side, sets
  its price, and pushes one entry for the new price on the heap of its side.
\<close>

theorem modify_order_queue_position:
  assumes "orders (final xs) oid = Some a"
  shows "modify_order (final xs) oid None (Some q) =
           Inr (True, (final xs)\<lparr>objects :=
                  (objects (final xs))[a := (objects (final xs) ! a)\<lparr>quantity := q\<rparr>]\<rparr>) \<and>
         (\<exists>b'. modify_order (final xs) oid (Some np) nq = Inr (True, b') \<and>
           orders b' = orders (final xs) \<and>
           price (objects b' ! a) = np \<and>
           quantity (objects b' ! a) =
             (case nq of None \<Rightarrow> quantity (objects (final xs) ! a) | Some q \<Rightarrow> q) \<and>
           (if side (objects (final xs) ! a) = ''buy''
            then bucket (price_levels_buy b') np =
                   remove1 a (bucket (price_levels_buy (final xs)) np) @ [a] \<and>
                 (\<forall>q. q \<noteq> np \<longrightarrow>
                    bucket (price_levels_buy b') q =
                      remove1 a (bucket (price_levels_buy (final xs)) q)) \<and>
                 (price (objects (final xs) ! a) \<noteq> np \<longrightarrow>
                    price_levels_buy b' (price (objects (final xs) ! a)) =
                      (if remove1 a (bucket (price_levels_buy (final xs))
                                       (price (objects (final xs) ! a))) = []
                       then None
                       else Some (remove1 a
                              (bucket (price_levels_buy (final xs))
                                 (price (objects (final xs) ! a)))))) \<and>
                 price_levels_sell b' = price_levels_sell (final xs) \<and>
                 buy_orders b' =
                   heappush (buy_orders (final xs))
                     (- np, timestamp (objects (final xs) ! a), oid) \<and>
                 sell_orders b' = sell_orders (final xs)
            else bucket (price_levels_sell b') np =
                   remove1 a (bucket (price_levels_sell (final xs)) np) @ [a] \<and>
                 (\<forall>q. q \<noteq> np \<longrightarrow>
                    bucket (price_levels_sell b') q =
                      remove1 a (bucket (price_levels_sell (final xs)) q)) \<and>
                 (price (objects (final xs) ! a) \<noteq> np \<longrightarrow>
                    price_levels_sell b' (price (objects (final xs) ! a)) =
                      (if remove1 a (bucket (price_levels_sell (final xs))
                                       (price (objects (final xs) ! a))) = []
                       then None
                       else Some (remove1 a
                              (bucket (price_levels_sell (final xs))
                                 (price (objects (final xs) ! a)))))) \<and>
                 price_levels_buy b' = price_levels_buy (final xs) \<and>
                 sell_orders b' =
                   heappush (sell_orders (final xs))
                     (np, timestamp (objects (final xs) ! a), oid) \<and>
                 buy_orders b' = buy_orders (final xs)))"
  using modify_order_quantity_only[OF assms, of q] modify_order_price[OF wf_final assms, of np nq]
  by (rule conjI)

theorem modify_order_queue_position_witness:
  "orders (final [Add 1 ''a'' ''buy'' 100 10, Add 2 ''b'' ''buy'' 100 5]) ''a'' = Some 0 \<and>
   bucket (price_levels_buy (final [Add 1 ''a'' ''buy'' 100 10, Add 2 ''b'' ''buy'' 100 5])) 100
     = [0, 1] \<and>
   (\<exists>b'. modify_order (final [Add 1 ''a'' ''buy'' 100 10, Add 2 ''b'' ''buy'' 100 5]) ''a''
            None (Some 7) = Inr (True, b') \<and>
         bucket (price_levels_buy b') 100 = [0, 1] \<and> quantity (objects b' ! 0) = 7) \<and>
   (\<exists>b'. modify_order (final [Add 1 ''a'' ''buy'' 100 10, Add 2 ''b'' ''buy'' 100 5]) ''a''
            (Some 100) None = Inr (True, b') \<and>
         bucket (price_levels_buy b') 100 = [1, 0]) \<and>
   (\<exists>b'. modify_order (final [Add 1 ''a'' ''buy'' 100 10, Add 2 ''b'' ''buy'' 100 5]) ''a''
            (Some 101) None = Inr (True, b') \<and>
         bucket (price_levels_buy b') 101 = [0] \<and> bucket (price_levels_buy b') 100 = [1])"
proof -
  let ?b = "final [Add 1 ''a'' ''buy'' 100 10, Add 2 ''b'' ''buy'' 100 5]"
  have o: "orders ?b ''a'' = Some 0"
    and bk: "bucket (price_levels_buy ?b) 100 = [0, 1]" "bucket (price_levels_buy ?b) 101 = []"
    and sd: "side (objects ?b ! 0) = ''buy''"
    and ob: "length (objects ?b) = 2"
    by (simp_all add: final_def bucket_def eval_defs)
  note t = modify_order_queue_position[OF o]
  have 1: "\<exists>b'. modify_order ?b ''a'' None (Some 7) = Inr (True, b') \<and>
         bucket (price_levels_buy b') 100 = [0, 1] \<and> quantity (objects b' ! 0) = 7"
    using t[of 7 0 None] bk ob by simp
  have 2: "\<exists>b'. modify_order ?b ''a'' (Some 100) None = Inr (True, b') \<and>
         bucket (price_levels_buy b') 100 = [1, 0]"
    using t[of 0 100 None] bk sd by auto
  have 3: "\<exists>b'. modify_order ?b ''a'' (Some 101) None = Inr (True, b') \<and>
         bucket (price_levels_buy b') 101 = [0] \<and> bucket (price_levels_buy b') 100 = [1]"
    using t[of 0 101 None] bk sd by auto
  from o bk(1) 1 2 3 show ?thesis by (intro conjI)
qed

section \<open>The id-map and the ledgers\<close>

lemma distinct_remove1_absent: "distinct xs \<Longrightarrow> a \<notin> set (remove1 a xs)"
  by simp

lemma resting_iff:
  assumes wf: "wf b"
  shows "(\<exists>i. orders b i = Some a) \<longleftrightarrow>
         (\<exists>q. a \<in> set (bucket (price_levels_buy b) q) \<or> a \<in> set (bucket (price_levels_sell b) q))"
proof
  note w = wfD[OF wf]
  assume "\<exists>i. orders b i = Some a"
  then obtain i where i: "orders b i = Some a" by blast
  show "\<exists>q. a \<in> set (bucket (price_levels_buy b) q) \<or> a \<in> set (bucket (price_levels_sell b) q)"
    using wf_coversD[OF wf i] by (cases "side (objects b ! a) = ''buy''") blast+
next
  note w = wfD[OF wf]
  assume "\<exists>q. a \<in> set (bucket (price_levels_buy b) q) \<or> a \<in> set (bucket (price_levels_sell b) q)"
  then obtain q where "a \<in> set (bucket (price_levels_buy b) q) \<or>
      a \<in> set (bucket (price_levels_sell b) q)" by blast
  then have "orders b (order_id (objects b ! a)) = Some a"
    using ledger_okD[OF w(3), of a q] ledger_okD[OF w(4), of a q] by (auto simp: ref_ok_def)
  then show "\<exists>i. orders b i = Some a" by blast
qed

lemma cancel_order_removes:
  assumes wf: "wf b" and o: "orders b oid = Some a"
  shows "\<exists>b'. cancel_order b oid = Inr (True, b') \<and> orders b' oid = None \<and>
           (\<forall>q. a \<notin> set (bucket (price_levels_buy b') q) \<and>
                a \<notin> set (bucket (price_levels_sell b') q))"
proof -
  note w = wfD[OF wf]
  from cancel_order_effect[OF wf o] obtain b' where
    c: "cancel_order b oid = Inr (True, b')" and m: "orders b' = (orders b)(oid := None)"
    and bb: "\<And>q. bucket (price_levels_buy b') q = remove1 a (bucket (price_levels_buy b) q)"
    and bs: "\<And>q. bucket (price_levels_sell b') q = remove1 a (bucket (price_levels_sell b) q)"
    by blast
  show ?thesis
    using c m ledger_ok_distinct[OF w(3)] ledger_ok_distinct[OF w(4)]
    by (intro exI[of _ b']) (simp add: bb bs)
qed

lemma filled_order_removed:
  assumes wf: "wf b" and m: "b = final xs" "match_round b = Inr (Some t, b')"
    and i: "i = buy_order_id t \<or> i = sell_order_id t" and o: "orders b i = Some a"
    and z: "quantity (objects b' ! a) = 0"
  shows "orders b' i = None \<and>
         (\<forall>q. a \<notin> set (bucket (price_levels_buy b') q) \<and>
              a \<notin> set (bucket (price_levels_sell b') q))"
proof -
  note w = wfD[OF wf]
  from match_round_total[OF wf] m(2) have w': "wf b'" by auto
  from match_round_trade_facts[OF m(2)[unfolded m(1)]] obtain x y buy bs sell ss where
    h: "bucket (price_levels_buy b) x = buy # bs" "bucket (price_levels_sell b) y = sell # ss"
    and t: "buy_order_id t = order_id (objects b ! buy)"
           "sell_order_id t = order_id (objects b ! sell)"
    and pb: "if quantity (objects b' ! buy) = 0 then orders b' (buy_order_id t) = None
             else orders b' (buy_order_id t) = Some buy"
    and ps: "if quantity (objects b' ! sell) = 0 then orders b' (sell_order_id t) = None
             else orders b' (sell_order_id t) = Some sell"
    unfolding m(1)[symmetric] by (auto split: if_splits)
  have rb: "ref_ok True (objects b) (orders b) x buy"
    by (rule ledger_okD[OF w(3)]) (simp add: h)
  have rs: "ref_ok False (objects b) (orders b) y sell"
    by (rule ledger_okD[OF w(4)]) (simp add: h)
  from rb rs have ob: "orders b (order_id (objects b ! buy)) = Some buy"
    and os: "orders b (order_id (objects b ! sell)) = Some sell"
    by (simp_all add: ref_ok_def)
  have gone: "orders b' i = None"
  proof (cases "i = buy_order_id t")
    case True
    with o ob t have "a = buy" by simp
    with z pb True show ?thesis by simp
  next
    case False
    with i have "i = sell_order_id t" by simp
    moreover from this o os t have "a = sell" by simp
    ultimately show ?thesis using z ps by simp
  qed
  have "\<not> (\<exists>j. orders b' j = Some a)"
  proof
    assume "\<exists>j. orders b' j = Some a"
    then obtain j where j: "orders b' j = Some a" by blast
    from wfD(2)[OF w'] j have ja: "order_id (objects b' ! a) = j" by (simp add: ids_ok_def)
    from match_round_trade_facts[OF m(2)[unfolded m(1)]] obtain buy' sell' qa qb where
      "objects b' = (objects b)[buy' := (objects b ! buy')\<lparr>quantity := qa\<rparr>,
                                sell' := (objects b ! sell')\<lparr>quantity := qb\<rparr>]"
      unfolding m(1)[symmetric] by blast
    then have "order_id (objects b' ! a) = order_id (objects b ! a)"
      by (cases "a = sell'"; cases "a = buy'"; cases "buy' < length (objects b)";
          cases "sell' < length (objects b)") (simp_all add: list_update_beyond)
    moreover from w(2) o have "order_id (objects b ! a) = i" by (simp add: ids_ok_def)
    ultimately have "j = i" using ja by simp
    with j gone show False by simp
  qed
  with resting_iff[OF w', of a] gone show ?thesis by blast
qed


text \<open>
  Claim C3, as the code has it. In every book reached from the empty one, an object is
  under an id of the id-map iff it is in a list of one of the two ledgers. A
  cancellation of its id succeeds and removes it from both. A round of matching that
  fills it down to quantity zero removes it from both. An amendment of its quantity
  alone removes nothing, whatever the new quantity: after an amendment to zero the order
  is still in the id-map and in its list, with quantity zero.
\<close>

theorem id_map_matches_ledgers:
  "(\<forall>a. (\<exists>i. orders (final xs) i = Some a) \<longleftrightarrow>
        (\<exists>q. a \<in> set (bucket (price_levels_buy (final xs)) q) \<or>
             a \<in> set (bucket (price_levels_sell (final xs)) q))) \<and>
   (\<forall>i a. orders (final xs) i = Some a \<longrightarrow>
      (\<exists>b'. cancel_order (final xs) i = Inr (True, b') \<and> orders b' i = None \<and>
         (\<forall>q. a \<notin> set (bucket (price_levels_buy b') q) \<and>
              a \<notin> set (bucket (price_levels_sell b') q)))) \<and>
   (\<forall>t b' i a. match_round (final xs) = Inr (Some t, b') \<and>
        (i = buy_order_id t \<or> i = sell_order_id t) \<and>
        orders (final xs) i = Some a \<and> quantity (objects b' ! a) = 0 \<longrightarrow>
      orders b' i = None \<and>
      (\<forall>q. a \<notin> set (bucket (price_levels_buy b') q) \<and>
           a \<notin> set (bucket (price_levels_sell b') q))) \<and>
   (\<forall>i a q. orders (final xs) i = Some a \<longrightarrow>
      (\<exists>b'. modify_order (final xs) i None (Some q) = Inr (True, b') \<and>
         orders b' = orders (final xs) \<and>
         price_levels_buy b' = price_levels_buy (final xs) \<and>
         price_levels_sell b' = price_levels_sell (final xs) \<and>
         quantity (objects b' ! a) = q))"
proof -
  have 1: "\<forall>a. (\<exists>i. orders (final xs) i = Some a) \<longleftrightarrow>
        (\<exists>q. a \<in> set (bucket (price_levels_buy (final xs)) q) \<or>
             a \<in> set (bucket (price_levels_sell (final xs)) q))"
    using resting_iff[OF wf_final, of xs] by (intro allI)
  have 2: "\<forall>i a. orders (final xs) i = Some a \<longrightarrow>
      (\<exists>b'. cancel_order (final xs) i = Inr (True, b') \<and> orders b' i = None \<and>
         (\<forall>q. a \<notin> set (bucket (price_levels_buy b') q) \<and>
              a \<notin> set (bucket (price_levels_sell b') q)))"
    using cancel_order_removes[OF wf_final, of xs] by (intro allI impI)
  have 3: "\<forall>t b' i a. match_round (final xs) = Inr (Some t, b') \<and>
        (i = buy_order_id t \<or> i = sell_order_id t) \<and>
        orders (final xs) i = Some a \<and> quantity (objects b' ! a) = 0 \<longrightarrow>
      orders b' i = None \<and>
      (\<forall>q. a \<notin> set (bucket (price_levels_buy b') q) \<and>
           a \<notin> set (bucket (price_levels_sell b') q))"
  proof (intro allI impI)
    fix t b' i a
    assume h: "match_round (final xs) = Inr (Some t, b') \<and>
        (i = buy_order_id t \<or> i = sell_order_id t) \<and>
        orders (final xs) i = Some a \<and> quantity (objects b' ! a) = 0"
    then have h1: "match_round (final xs) = Inr (Some t, b')"
      and h2: "i = buy_order_id t \<or> i = sell_order_id t"
      and h3: "orders (final xs) i = Some a" and h4: "quantity (objects b' ! a) = 0"
      by simp_all
    show "orders b' i = None \<and>
      (\<forall>q. a \<notin> set (bucket (price_levels_buy b') q) \<and>
           a \<notin> set (bucket (price_levels_sell b') q))"
      by (rule filled_order_removed[OF wf_final refl h1 h2 h3 h4])
  qed
  have 4: "\<forall>i a q. orders (final xs) i = Some a \<longrightarrow>
      (\<exists>b'. modify_order (final xs) i None (Some q) = Inr (True, b') \<and>
         orders b' = orders (final xs) \<and>
         price_levels_buy b' = price_levels_buy (final xs) \<and>
         price_levels_sell b' = price_levels_sell (final xs) \<and>
         quantity (objects b' ! a) = q)"
  proof (intro allI impI)
    fix i a q assume o: "orders (final xs) i = Some a"
    from wfD(2)[OF wf_final] o have "a < length (objects (final xs))" by (simp add: ids_ok_def)
    then show "\<exists>b'. modify_order (final xs) i None (Some q) = Inr (True, b') \<and>
         orders b' = orders (final xs) \<and>
         price_levels_buy b' = price_levels_buy (final xs) \<and>
         price_levels_sell b' = price_levels_sell (final xs) \<and>
         quantity (objects b' ! a) = q"
      by (simp add: modify_order_quantity_only[OF o])
  qed
  from 1 2 3 4 show ?thesis by (intro conjI)
qed

text \<open>
  The claim as stated fails for amendments: after buy A at 100 with quantity 10 is
  amended to quantity 0, it is still in the id-map and in the list of price 100.
\<close>

theorem amended_to_zero_counterexample:
  "replies [Add 1 ''A'' ''buy'' 100 10, Modify ''A'' None (Some 0)] = [Ack True, Ack True] \<and>
   orders (final [Add 1 ''A'' ''buy'' 100 10, Modify ''A'' None (Some 0)]) ''A'' = Some 0 \<and>
   quantity (objects (final [Add 1 ''A'' ''buy'' 100 10, Modify ''A'' None (Some 0)]) ! 0) = 0 \<and>
   price_levels_buy (final [Add 1 ''A'' ''buy'' 100 10, Modify ''A'' None (Some 0)]) 100 =
     Some [0]"
  by (simp add: replies_def final_def eval_defs)

theorem id_map_matches_ledgers_witness:
  "orders (final [Add 1 ''A'' ''buy'' 100 10, Add 2 ''S'' ''sell'' 100 10]) ''A'' = Some 0 \<and>
   (\<exists>q. 0 \<in> set (bucket (price_levels_buy
                    (final [Add 1 ''A'' ''buy'' 100 10, Add 2 ''S'' ''sell'' 100 10])) q) \<or>
        0 \<in> set (bucket (price_levels_sell
                    (final [Add 1 ''A'' ''buy'' 100 10, Add 2 ''S'' ''sell'' 100 10])) q)) \<and>
   (\<exists>b'. cancel_order (final [Add 1 ''A'' ''buy'' 100 10, Add 2 ''S'' ''sell'' 100 10]) ''A''
            = Inr (True, b') \<and> orders b' ''A'' = None \<and>
         (\<forall>q. 0 \<notin> set (bucket (price_levels_buy b') q) \<and>
              0 \<notin> set (bucket (price_levels_sell b') q))) \<and>
   (\<exists>t b'. match_round (final [Add 1 ''A'' ''buy'' 100 10, Add 2 ''S'' ''sell'' 100 10])
              = Inr (Some t, b') \<and> buy_order_id t = ''A'' \<and> quantity (objects b' ! 0) = 0 \<and>
           orders b' ''A'' = None \<and>
           (\<forall>q. 0 \<notin> set (bucket (price_levels_buy b') q) \<and>
                0 \<notin> set (bucket (price_levels_sell b') q))) \<and>
   (\<exists>b'. modify_order (final [Add 1 ''A'' ''buy'' 100 10, Add 2 ''S'' ''sell'' 100 10]) ''A''
            None (Some 0) = Inr (True, b') \<and>
         orders b' = orders (final [Add 1 ''A'' ''buy'' 100 10, Add 2 ''S'' ''sell'' 100 10]) \<and>
         quantity (objects b' ! 0) = 0)"
proof -
  let ?b = "final [Add 1 ''A'' ''buy'' 100 10, Add 2 ''S'' ''sell'' 100 10]"
  note t = id_map_matches_ledgers[of "[Add 1 ''A'' ''buy'' 100 10, Add 2 ''S'' ''sell'' 100 10]"]
  note t1 = t[THEN conjunct1, rule_format]
  note t2 = t[THEN conjunct2, THEN conjunct1, rule_format]
  note t3 = t[THEN conjunct2, THEN conjunct2, THEN conjunct1, rule_format]
  note t4 = t[THEN conjunct2, THEN conjunct2, THEN conjunct2, rule_format]
  have o: "orders ?b ''A'' = Some 0" by (simp add: final_def eval_defs)
  have "\<exists>t b'. match_round ?b = Inr (Some t, b') \<and> buy_order_id t = ''A'' \<and>
          quantity (objects b' ! 0) = 0"
    by (simp add: final_def eval_defs)
  then obtain t b' where m: "match_round ?b = Inr (Some t, b')" "buy_order_id t = ''A''"
    "quantity (objects b' ! 0) = 0" by blast
  have 1: "\<exists>q. 0 \<in> set (bucket (price_levels_buy ?b) q) \<or> 0 \<in> set (bucket (price_levels_sell ?b) q)"
    using t1[of 0] o by blast
  have 2: "\<exists>b'. cancel_order ?b ''A'' = Inr (True, b') \<and> orders b' ''A'' = None \<and>
         (\<forall>q. 0 \<notin> set (bucket (price_levels_buy b') q) \<and>
              0 \<notin> set (bucket (price_levels_sell b') q))"
    using t2[OF o] by blast
  have 3: "orders b' ''A'' = None \<and>
           (\<forall>q. 0 \<notin> set (bucket (price_levels_buy b') q) \<and>
                0 \<notin> set (bucket (price_levels_sell b') q))"
    by (rule t3[of t b' "''A''" 0]) (simp add: o m)
  have 4: "\<exists>b'. modify_order ?b ''A'' None (Some 0) = Inr (True, b') \<and> orders b' = orders ?b \<and>
         quantity (objects b' ! 0) = 0"
    using t4[OF o, of 0] by blast
  have f3: "\<exists>t b'. match_round ?b = Inr (Some t, b') \<and> buy_order_id t = ''A'' \<and>
           quantity (objects b' ! 0) = 0 \<and> orders b' ''A'' = None \<and>
           (\<forall>q. 0 \<notin> set (bucket (price_levels_buy b') q) \<and>
                0 \<notin> set (bucket (price_levels_sell b') q))"
    using m 3 by (intro exI[of _ t] exI[of _ b']) simp
  from o 1 2 f3 4 show ?thesis by (intro conjI)
qed

section \<open>Snapshots\<close>

lemma candidates_Cons:
  "candidates f os ((k, t, i) # h) =
     (if os i \<noteq> None then f k # candidates f os h else candidates f os h)"
  by (simp add: candidates_def)

lemma snapshot_loop_levels:
  "fst (snapshot_loop f depth os objs temp seen acc lv) =
     acc @ map (\<lambda>p. (p, level_total objs (bucket lv p)))
             (take (nat (depth - int (length acc))) (first_seen seen (candidates f os temp)))"
proof (induction temp arbitrary: seen acc lv)
  case Nil
  show ?case by (simp add: candidates_def)
next
  case (Cons e temp)
  obtain k t i where e: "e = (k, t, i)" by (cases e)
  show ?case
  proof (cases "int (length acc) < depth")
    case False
    then have "nat (depth - int (length acc)) = 0" by simp
    with False show ?thesis unfolding e snapshot_loop_Cons by simp
  next
    case True
    then have n: "nat (depth - int (length acc)) = Suc (nat (depth - int (length acc) - 1))"
      by simp
    show ?thesis
    proof (cases "f k \<notin> seen \<and> os i \<noteq> None")
      case False
      with True show ?thesis
        unfolding e snapshot_loop_Cons by (auto simp: Cons.IH candidates_Cons)
    next
      case new: True
      have "fst (snapshot_loop f depth os objs ((k, t, i) # temp) seen acc lv) =
            fst (snapshot_loop f depth os objs temp (insert (f k) seen)
                   (acc @ [(f k, level_total objs (bucket lv (f k)))]) (snd (dd_get lv (f k))))"
        unfolding snapshot_loop_Cons using True new by simp
      also have "\<dots> = (acc @ [(f k, level_total objs (bucket lv (f k)))]) @
            map (\<lambda>p. (p, level_total objs (bucket lv p)))
              (take (nat (depth - int (length acc) - 1))
                 (first_seen (insert (f k) seen) (candidates f os temp)))"
        by (simp add: Cons.IH algebra_simps)
      also have "\<dots> = acc @ map (\<lambda>p. (p, level_total objs (bucket lv p)))
             (take (nat (depth - int (length acc)))
                (first_seen seen (candidates f os ((k, t, i) # temp))))"
        using new by (subst n) (simp add: candidates_Cons)
      finally show ?thesis unfolding e .
    qed
  qed
qed

lemma get_order_book_snapshot_levels:
  "fst (get_order_book_snapshot b depth) =
     (map (\<lambda>p. (p, level_total (objects b) (bucket (price_levels_buy b) p)))
        (take (nat depth) (first_seen {} (candidates uminus (orders b) (buy_orders b)))),
      map (\<lambda>p. (p, level_total (objects b) (bucket (price_levels_sell b) p)))
        (take (nat depth) (first_seen {} (candidates (\<lambda>p. p) (orders b) (sell_orders b)))))"
  using snapshot_loop_levels[of uminus depth "orders b" "objects b" "buy_orders b" "{}" "[]"
          "price_levels_buy b"]
        snapshot_loop_levels[of "\<lambda>p. p" depth "orders b" "objects b" "sell_orders b" "{}" "[]"
          "price_levels_sell b"]
  by (simp add: get_order_book_snapshot_def case_prod_beta)

lemma set_first_seen: "set (first_seen seen ps) = set ps - seen"
  by (induction ps arbitrary: seen) auto

lemma first_seen_increasing:
  "sorted ps \<Longrightarrow> sorted_wrt (<) (first_seen seen ps)"
proof (induction ps arbitrary: seen)
  case Nil
  show ?case by simp
next
  case (Cons p ps)
  then have s: "sorted ps" and le: "\<forall>x \<in> set ps. p \<le> x" by simp_all
  show ?case
  proof (cases "p \<in> seen")
    case True
    with Cons.IH[OF s] show ?thesis by simp
  next
    case False
    have "\<forall>x \<in> set (first_seen (insert p seen) ps). p < x"
      using le by (auto simp: set_first_seen order_less_le)
    with False Cons.IH[OF s, of "insert p seen"] show ?thesis by simp
  qed
qed

lemma first_seen_decreasing:
  "sorted (rev ps) \<Longrightarrow> sorted_wrt (>) (first_seen seen ps)"
proof (induction ps arbitrary: seen)
  case Nil
  show ?case by simp
next
  case (Cons p ps)
  then have s: "sorted (rev ps)" and le: "\<forall>x \<in> set ps. x \<le> p"
    by (simp_all add: sorted_append)
  show ?case
  proof (cases "p \<in> seen")
    case True
    with Cons.IH[OF s] show ?thesis by simp
  next
    case False
    have "\<forall>x \<in> set (first_seen (insert p seen) ps). x < p"
      using le by (auto simp: set_first_seen order_less_le)
    with False Cons.IH[OF s, of "insert p seen"] show ?thesis by simp
  qed
qed

lemma sorted_keys: "sorted (h :: entry list) \<Longrightarrow> sorted (map fst h)"
  by (induction h) (auto simp: less_eq_prod_def)

lemma candidates_asks_sorted:
  assumes "sorted h" shows "sorted (candidates (\<lambda>p. p) os h)"
proof -
  have "candidates (\<lambda>p. p) os h = map fst (filter (\<lambda>e. os (snd (snd e)) \<noteq> None) h)"
    by (simp add: candidates_def)
  moreover have "sorted (filter (\<lambda>e. os (snd (snd e)) \<noteq> None) h)"
    using assms by (rule sorted_wrt_filter)
  ultimately show ?thesis by (simp add: sorted_keys)
qed

lemma candidates_bids_sorted:
  assumes "sorted h" shows "sorted (rev (candidates uminus os h))"
proof -
  have "sorted (map fst (filter (\<lambda>e. os (snd (snd e)) \<noteq> None) h))"
    using assms by (intro sorted_keys sorted_wrt_filter)
  then have "sorted_wrt (\<lambda>x y. - y \<le> - x) (map fst (filter (\<lambda>e. os (snd (snd e)) \<noteq> None) h))"
    by simp
  then have "sorted_wrt (\<lambda>x y. y \<le> x) (candidates uminus os h)"
    unfolding candidates_def by (simp add: sorted_wrt_map)
  then show ?thesis by (simp add: sorted_wrt_rev)
qed

lemma live_price_is_candidate:
  assumes wf: "wf b"
  shows "a \<in> set (bucket (price_levels_buy b) p) \<Longrightarrow>
           p \<in> set (candidates uminus (orders b) (buy_orders b))"
    and "a \<in> set (bucket (price_levels_sell b) p) \<Longrightarrow>
           p \<in> set (candidates (\<lambda>p. p) (orders b) (sell_orders b))"
proof -
  note w = wfD[OF wf]
  {
    assume "a \<in> set (bucket (price_levels_buy b) p)"
    from ledger_okD[OF w(3) this] have o: "orders b (order_id (objects b ! a)) = Some a"
      and sd: "side (objects b ! a) = ''buy''" and pr: "price (objects b ! a) = p"
      by (simp_all add: ref_ok_def)
    from w(9) o sd have "(- price (objects b ! a), timestamp (objects b ! a),
        order_id (objects b ! a)) \<in> set (buy_orders b)" by (auto simp: index_covers_def)
    with o pr show "p \<in> set (candidates uminus (orders b) (buy_orders b))"
      by (force simp: candidates_def)
  next
    assume "a \<in> set (bucket (price_levels_sell b) p)"
    from ledger_okD[OF w(4) this] have o: "orders b (order_id (objects b ! a)) = Some a"
      and sd: "side (objects b ! a) \<noteq> ''buy''" and pr: "price (objects b ! a) = p"
      by (simp_all add: ref_ok_def)
    from w(9) o sd have "(price (objects b ! a), timestamp (objects b ! a),
        order_id (objects b ! a)) \<in> set (sell_orders b)" by (auto simp: index_covers_def)
    with o pr show "p \<in> set (candidates (\<lambda>p. p) (orders b) (sell_orders b))"
      by (force simp: candidates_def)
  }
qed


text \<open>
  Claim C8, as the code has it. On a book reached from the empty one, a snapshot of depth
  \<open>N\<close> lists per side the first \<open>N\<close> distinct prices (none when \<open>N \<le> 0\<close>) among the heap
  entries whose id is in the id-map, each with the total quantity of the orders that
  rest under that price on that side; the bids come in strictly decreasing and the asks
  in strictly increasing order of price, so no price comes twice; and every price under
  which an order rests is among the prices the entries offer. The price of an entry is
  not compared with the price of its order: the entry that an amendment of the price
  leaves behind still offers the old price, and such a level is listed with the total
  of whatever rests there, 0 when nothing does.
\<close>

theorem snapshot_levels:
  "fst (get_order_book_snapshot (final xs) depth) =
     (map (\<lambda>p. (p, level_total (objects (final xs)) (bucket (price_levels_buy (final xs)) p)))
        (take (nat depth)
           (first_seen {} (candidates uminus (orders (final xs)) (buy_orders (final xs))))),
      map (\<lambda>p. (p, level_total (objects (final xs)) (bucket (price_levels_sell (final xs)) p)))
        (take (nat depth)
           (first_seen {} (candidates (\<lambda>p. p) (orders (final xs)) (sell_orders (final xs)))))) \<and>
   length (fst (fst (get_order_book_snapshot (final xs) depth))) \<le> nat depth \<and>
   length (snd (fst (get_order_book_snapshot (final xs) depth))) \<le> nat depth \<and>
   sorted_wrt (>) (map fst (fst (fst (get_order_book_snapshot (final xs) depth)))) \<and>
   sorted_wrt (<) (map fst (snd (fst (get_order_book_snapshot (final xs) depth)))) \<and>
   (\<forall>p. bucket (price_levels_buy (final xs)) p \<noteq> [] \<longrightarrow>
        p \<in> set (first_seen {} (candidates uminus (orders (final xs)) (buy_orders (final xs))))) \<and>
   (\<forall>p. bucket (price_levels_sell (final xs)) p \<noteq> [] \<longrightarrow>
        p \<in> set (first_seen {}
                   (candidates (\<lambda>p. p) (orders (final xs)) (sell_orders (final xs)))))"
proof -
  let ?b = "final xs"
  let ?bids = "take (nat depth) (first_seen {} (candidates uminus (orders ?b) (buy_orders ?b)))"
  let ?asks = "take (nat depth) (first_seen {} (candidates (\<lambda>p. p) (orders ?b) (sell_orders ?b)))"
  note w = wfD[OF wf_final, of xs]
  note eq = get_order_book_snapshot_levels[of ?b depth]
  have fb: "map fst (fst (fst (get_order_book_snapshot ?b depth))) = ?bids"
    by (simp add: eq comp_def)
  have fa: "map fst (snd (fst (get_order_book_snapshot ?b depth))) = ?asks"
    by (simp add: eq comp_def)
  have 1: "length (fst (fst (get_order_book_snapshot ?b depth))) \<le> nat depth"
    by (simp add: eq)
  have 2: "length (snd (fst (get_order_book_snapshot ?b depth))) \<le> nat depth"
    by (simp add: eq)
  have 3: "sorted_wrt (>) (map fst (fst (fst (get_order_book_snapshot ?b depth))))"
    unfolding fb
    by (intro sorted_wrt_take first_seen_decreasing candidates_bids_sorted w(7))
  have 4: "sorted_wrt (<) (map fst (snd (fst (get_order_book_snapshot ?b depth))))"
    unfolding fa
    by (intro sorted_wrt_take first_seen_increasing candidates_asks_sorted w(8))
  have 5: "\<forall>p. bucket (price_levels_buy ?b) p \<noteq> [] \<longrightarrow>
        p \<in> set (first_seen {} (candidates uminus (orders ?b) (buy_orders ?b)))"
  proof (intro allI impI)
    fix p assume "bucket (price_levels_buy ?b) p \<noteq> []"
    then obtain a where "a \<in> set (bucket (price_levels_buy ?b) p)"
      by (cases "bucket (price_levels_buy ?b) p") auto
    from live_price_is_candidate(1)[OF wf_final this]
    show "p \<in> set (first_seen {} (candidates uminus (orders ?b) (buy_orders ?b)))"
      by (simp add: set_first_seen)
  qed
  have 6: "\<forall>p. bucket (price_levels_sell ?b) p \<noteq> [] \<longrightarrow>
        p \<in> set (first_seen {} (candidates (\<lambda>p. p) (orders ?b) (sell_orders ?b)))"
  proof (intro allI impI)
    fix p assume "bucket (price_levels_sell ?b) p \<noteq> []"
    then obtain a where "a \<in> set (bucket (price_levels_sell ?b) p)"
      by (cases "bucket (price_levels_sell ?b) p") auto
    from live_price_is_candidate(2)[OF wf_final this]
    show "p \<in> set (first_seen {} (candidates (\<lambda>p. p) (orders ?b) (sell_orders ?b)))"
      by (simp add: set_first_seen)
  qed
  from eq 1 2 3 4 5 6 show ?thesis by (intro conjI)
qed

text \<open>
  The claim as stated fails: after buy A at 100 is amended to 99, the snapshot lists the
  level 100, under which no order rests, with quantity 0.
\<close>

theorem stale_level_counterexample:
  "replies [Add 1 ''A'' ''buy'' 100 10, Modify ''A'' (Some 99) None, Snapshot 5] =
     [Ack True, Ack True, Levels [(100, 0), (99, 10)] []] \<and>
   bucket (price_levels_buy (final [Add 1 ''A'' ''buy'' 100 10, Modify ''A'' (Some 99) None]))
     100 = [] \<and>
   bucket (price_levels_buy (final [Add 1 ''A'' ''buy'' 100 10, Modify ''A'' (Some 99) None]))
     99 = [0]"
  by (simp add: replies_def final_def bucket_def eval_defs)

theorem snapshot_levels_witness:
  "bucket (price_levels_buy (final [Add 1 ''A'' ''buy'' 100 10, Add 2 ''B'' ''buy'' 100 4,
                                    Add 3 ''C'' ''buy'' 101 1])) 100 \<noteq> [] \<and>
   100 \<in> set (first_seen {} (candidates uminus
                 (orders (final [Add 1 ''A'' ''buy'' 100 10, Add 2 ''B'' ''buy'' 100 4,
                                 Add 3 ''C'' ''buy'' 101 1]))
                 (buy_orders (final [Add 1 ''A'' ''buy'' 100 10, Add 2 ''B'' ''buy'' 100 4,
                                     Add 3 ''C'' ''buy'' 101 1])))) \<and>
   fst (get_order_book_snapshot (final [Add 1 ''A'' ''buy'' 100 10, Add 2 ''B'' ''buy'' 100 4,
                                        Add 3 ''C'' ''buy'' 101 1]) 5) =
     ([(101, 1), (100, 14)], [])"
proof -
  let ?xs = "[Add 1 ''A'' ''buy'' 100 10, Add 2 ''B'' ''buy'' 100 4, Add 3 ''C'' ''buy'' 101 1]"
  note t = snapshot_levels[of ?xs 5]
  have ne: "bucket (price_levels_buy (final ?xs)) 100 \<noteq> []"
    by (simp add: final_def bucket_def eval_defs)
  have c: "100 \<in> set (first_seen {} (candidates uminus (orders (final ?xs))
                                        (buy_orders (final ?xs))))"
    using t ne by blast
  have v: "fst (get_order_book_snapshot (final ?xs) 5) = ([(101, 1), (100, 14)], [])"
    by (simp add: final_def eval_defs)
  from ne c v show ?thesis by (intro conjI)
qed

end
